theory Spec2Isabelle
  imports Complex_Main "HOL-Library.Multiset"
begin

section \<open>Errors and the random generator\<close>

text \<open>
  Python exceptions are values. An \<open>AssertionError\<close> carries the text of the asserted
  condition, a \<open>ValueError\<close> a short message.
\<close>

datatype error = AssertionError string | ValueError string | IndexError | TypeError

text \<open>
  A \<open>numpy.random.Generator\<close> is a stream of raw draws together with the number of
  draws already consumed. \<open>rng.integers(low, high)\<close> consumes one draw and returns
  an integer of the half-open interval; it raises \<open>ValueError\<close> when the interval is
  empty. \<open>rng.uniform(0, 1)\<close> consumes one draw and returns a 53-bit fraction of
  \<open>[0, 1)\<close>. Every sequence of results the generator can produce is the image of
  some stream.
\<close>

datatype rng = Rng (draws: "nat \<Rightarrow> nat") (pos: nat)

definition next_raw :: "rng \<Rightarrow> nat \<times> rng" where
  "next_raw g = (draws g (pos g), Rng (draws g) (Suc (pos g)))"

definition rng_integers :: "int \<Rightarrow> int \<Rightarrow> rng \<Rightarrow> error + (int \<times> rng)" where
  "rng_integers low high g =
     (if high \<le> low then Inl (ValueError ''low >= high'')
      else (case next_raw g of (r, g') \<Rightarrow> Inr (low + int r mod (high - low), g')))"

definition rng_uniform01 :: "rng \<Rightarrow> real \<times> rng" where
  "rng_uniform01 g =
     (case next_raw g of (r, g') \<Rightarrow> (real (r mod 2 ^ 53) / 2 ^ 53, g'))"

section \<open>overlap\_sampler.py: UniformOverlapSampler\<close>

record UniformOverlapSampler =
  max_concurrent_spk :: int
  p_silence :: real
  maximum_silence :: int
  maximum_overlap :: int
  minimum_silence :: int
  soft_minimum_overlap :: int
  hard_minimum_overlap :: int
  margin :: int

text \<open>\<open>__post_init__\<close>: the four assertions, in the order of the source.\<close>

definition post_init :: "UniformOverlapSampler \<Rightarrow> error + unit" where
  "post_init c =
     (if \<not> margin c \<le> minimum_silence c
        then Inl (AssertionError ''minimum_silence >= margin'')
      else if \<not> minimum_silence c < maximum_silence c
        then Inl (AssertionError ''minimum_silence < maximum_silence'')
      else if \<not> soft_minimum_overlap c \<le> maximum_overlap c
        then Inl (AssertionError ''soft_minimum_overlap <= maximum_overlap'')
      else if \<not> hard_minimum_overlap c \<le> maximum_overlap c
        then Inl (AssertionError ''hard_minimum_overlap <= maximum_overlap'')
      else Inr ())"

definition sample_silence :: "UniformOverlapSampler \<Rightarrow> rng \<Rightarrow> error + (int \<times> rng)" where
  "sample_silence c g = rng_integers (minimum_silence c) (maximum_silence c) g"

definition sample_overlap :: "UniformOverlapSampler \<Rightarrow> rng \<Rightarrow> error + (int \<times> rng)" where
  "sample_overlap c g = rng_integers (hard_minimum_overlap c) (maximum_overlap c) g"

definition sample_shift :: "UniformOverlapSampler \<Rightarrow> rng \<Rightarrow> error + (int \<times> rng)" where
  "sample_shift c g =
     (case rng_uniform01 g of (u, g') \<Rightarrow>
        if u \<le> p_silence c then sample_silence c g'
        else (case sample_overlap c g' of
                Inl e \<Rightarrow> Inl e
              | Inr (overlap, g'') \<Rightarrow> Inr (- overlap, g'')))"

text \<open>
  The \<open>for _ in range(100)\<close> loop with its \<open>break\<close>: \<open>Some shift\<close> is the accepted
  candidate, \<open>None\<close> says that the loop ran to its end, so that the \<open>else\<close> branch of
  the loop is taken.
\<close>

fun rejection_loop ::
  "UniformOverlapSampler \<Rightarrow> int \<Rightarrow> nat \<Rightarrow> rng \<Rightarrow> error + (int option \<times> rng)" where
  "rejection_loop c max_overlap 0 g = Inr (None, g)"
| "rejection_loop c max_overlap (Suc n) g =
     (case sample_shift c g of
        Inl e \<Rightarrow> Inl e
      | Inr (shift, g') \<Rightarrow>
          if - max_overlap + margin c < shift then Inr (Some shift, g')
          else rejection_loop c max_overlap n g')"

text \<open>The branch of the hard minimum: \<open>max(self._sample_silence(rng), self.margin)\<close>.\<close>

definition clamped_silence :: "UniformOverlapSampler \<Rightarrow> rng \<Rightarrow> error + (int \<times> rng)" where
  "clamped_silence c g =
     (case sample_silence c g of
        Inl e \<Rightarrow> Inl e
      | Inr (silence, g') \<Rightarrow> Inr (max silence (margin c), g'))"

text \<open>
  The shift computed by \<open>sample_offset\<close>, with the generator after the draws and a flag
  that tells whether the warning of the fallback was emitted.
\<close>

record shift_result =
  shift :: int
  warned :: bool
  rng_after :: rng

definition sample_offset_shift ::
  "UniformOverlapSampler \<Rightarrow> int \<Rightarrow> rng \<Rightarrow> error + shift_result" where
  "sample_offset_shift c max_overlap g =
     (if max_overlap \<le> hard_minimum_overlap c then
        (case clamped_silence c g of
           Inl e \<Rightarrow> Inl e
         | Inr (s, g') \<Rightarrow> Inr \<lparr>shift = s, warned = False, rng_after = g'\<rparr>)
      else if max_overlap \<le> soft_minimum_overlap c then
        Inr \<lparr>shift = - max_overlap + margin c, warned = False, rng_after = g\<rparr>
      else
        (case rejection_loop c max_overlap 100 g of
           Inl e \<Rightarrow> Inl e
         | Inr (Some s, g') \<Rightarrow> Inr \<lparr>shift = s, warned = False, rng_after = g'\<rparr>
         | Inr (None, g') \<Rightarrow>
             (case sample_silence c g' of
                Inl e \<Rightarrow> Inl e
              | Inr (s, g'') \<Rightarrow> Inr \<lparr>shift = s, warned = True, rng_after = g''\<rparr>)))"

text \<open>
  The collated examples, as far as \<open>sample_offset\<close> reads them:
  \<open>examples['offset']['original_source']\<close> and \<open>examples['num_samples']['observation']\<close>.
  The sum of the two arrays broadcasts an array of length one and raises otherwise when
  the lengths differ; \<open>np.max\<close> raises on an empty array.
\<close>

record examples =
  offset_original_source :: "int list"
  num_samples_observation :: "int list"

definition np_add :: "int list \<Rightarrow> int list \<Rightarrow> error + int list" where
  "np_add xs ys =
     (if length xs = length ys then Inr (map2 (+) xs ys)
      else if length xs = 1 then Inr (map (\<lambda>y. hd xs + y) ys)
      else if length ys = 1 then Inr (map (\<lambda>x. x + hd ys) xs)
      else Inl (ValueError ''operands could not be broadcast together''))"

definition np_max :: "int list \<Rightarrow> error + int" where
  "np_max xs =
     (case xs of
        [] \<Rightarrow> Inl (ValueError ''zero-size array to reduction operation maximum'')
      | x # r \<Rightarrow> Inr (fold max r x))"

definition latest_end :: "examples \<Rightarrow> error + int" where
  "latest_end ex =
     (case np_add (offset_original_source ex) (num_samples_observation ex) of
        Inl e \<Rightarrow> Inl e
      | Inr ends \<Rightarrow> np_max ends)"

record offset_result =
  offset :: int
  offset_warned :: bool
  offset_rng_after :: rng

definition sample_offset ::
  "UniformOverlapSampler \<Rightarrow> examples \<Rightarrow> int \<Rightarrow> rng \<Rightarrow> error + offset_result" where
  "sample_offset c ex max_overlap g =
     (case sample_offset_shift c max_overlap g of
        Inl e \<Rightarrow> Inl e
      | Inr r \<Rightarrow>
          (case latest_end ex of
             Inl e \<Rightarrow> Inl e
           | Inr m \<Rightarrow>
               Inr \<lparr>offset = m + shift r, offset_warned = warned r,
                    offset_rng_after = rng_after r\<rparr>))"

section \<open>overlap\_sampler.py: get\_allowed\_max\_overlap\<close>

text \<open>
  Python indexing and slicing of a sequence: a negative index counts from the end,
  \<open>xs[i]\<close> raises \<open>IndexError\<close> out of range, and the bound of a slice is clamped to
  the sequence.
\<close>

definition py_index :: "'a list \<Rightarrow> int \<Rightarrow> error + 'a" where
  "py_index xs i =
     (if 0 \<le> i \<and> i < int (length xs) then Inr (xs ! nat i)
      else if i < 0 \<and> - int (length xs) \<le> i then Inr (xs ! nat (int (length xs) + i))
      else Inl IndexError)"

definition clamp_bound :: "nat \<Rightarrow> int \<Rightarrow> nat" where
  "clamp_bound n i = (if i < 0 then nat (max (int n + i) 0) else min (nat i) n)"

definition slice_from :: "'a list \<Rightarrow> int \<Rightarrow> 'a list" where
  "slice_from xs i = drop (clamp_bound (length xs) i) xs"

definition slice_to :: "'a list \<Rightarrow> int \<Rightarrow> 'a list" where
  "slice_to xs i = take (clamp_bound (length xs) i) xs"

text \<open>Indexing an array with an array of indices, \<open>a[idx]\<close>.\<close>

definition take_indices :: "'a list \<Rightarrow> nat list \<Rightarrow> error + 'a list" where
  "take_indices xs idx =
     (if list_all (\<lambda>i. i < length xs) idx then Inr (map ((!) xs) idx) else Inl IndexError)"

text \<open>\<open>list.index\<close>: the first position of a value, \<open>ValueError\<close> when it is absent.\<close>

fun list_index :: "'a list \<Rightarrow> 'a \<Rightarrow> error + nat" where
  "list_index [] v = Inl (ValueError ''value is not in list'')"
| "list_index (x # xs) v =
     (if x = v then Inr 0
      else (case list_index xs v of Inl e \<Rightarrow> Inl e | Inr i \<Rightarrow> Inr (Suc i)))"

text \<open>
  \<open>np.argsort\<close> is called with its default \<open>kind\<close>, which NumPy documents as a sort
  that need not be stable. It is a parameter of the model; \<open>is_argsort\<close> is what NumPy
  promises of it: the result is a permutation of the positions that puts the values in
  ascending order. How it orders equal values is left open. \<open>stable_argsort\<close> is
  one such function, which breaks ties by position; it serves to run the model on
  concrete inputs.
\<close>

definition is_argsort :: "(int list \<Rightarrow> nat list) \<Rightarrow> bool" where
  "is_argsort argsort \<longleftrightarrow>
     (\<forall>xs. mset (argsort xs) = mset [0..<length xs] \<and> sorted (map ((!) xs) (argsort xs)))"

definition stable_argsort :: "int list \<Rightarrow> nat list" where
  "stable_argsort xs = sort_key (\<lambda>i. xs ! i) [0..<length xs]"

text \<open>
  The padding to at least \<open>max_concurrent_spk\<close> entries. A speaker id of the input is a
  value of \<open>'a\<close>; the padded list holds \<open>Some\<close> of it, and \<open>None\<close> is Python's \<open>None\<close>
  of the padding. The current speaker is a speaker id of the same type.
\<close>

definition pad_speaker_ids :: "'a list \<Rightarrow> int \<Rightarrow> int list \<Rightarrow> 'a option list" where
  "pad_speaker_ids speaker_ids m speaker_end =
     map Some speaker_ids @ replicate (nat (m - int (length speaker_end))) None"

definition pad_speaker_end :: "int list \<Rightarrow> int \<Rightarrow> int list" where
  "pad_speaker_end speaker_end m =
     speaker_end @ replicate (nat (max (m - int (length speaker_end)) 0)) 0"

text \<open>
  The active tail: the end times and ids at \<open>np.argsort(speaker_end)[-max_concurrent_spk:]\<close>.
  The argument \<open>m\<close> is \<open>max_concurrent_spk\<close>.
\<close>

definition active_tail ::
  "(int list \<Rightarrow> nat list) \<Rightarrow> int list \<Rightarrow> 'a list \<Rightarrow> int \<Rightarrow> error + (int list \<times> 'a option list)" where
  "active_tail argsort speaker_end speaker_ids m =
     (let ids = pad_speaker_ids speaker_ids m speaker_end;
          ends = pad_speaker_end speaker_end m;
          speaker_idx = slice_from (argsort ends) (- m)
      in (case take_indices ends speaker_idx of
            Inl e \<Rightarrow> Inl e
          | Inr ends' \<Rightarrow>
              (case take_indices ids speaker_idx of
                 Inl e \<Rightarrow> Inl e
               | Inr ids' \<Rightarrow> Inr (ends', ids'))))"

text \<open>The effective bound: the position of the current speaker's last appearance, plus one.\<close>

definition effective_bound :: "'a option list \<Rightarrow> int \<Rightarrow> 'a \<Rightarrow> error + int" where
  "effective_bound ids m current_speaker_id =
     (if Some current_speaker_id \<in> set ids then
        (case list_index (rev ids) (Some current_speaker_id) of
           Inl e \<Rightarrow> Inl e
         | Inr spk_pos \<Rightarrow> Inr (int spk_pos + 1))
      else Inr m)"

definition get_allowed_max_overlap ::
  "(int list \<Rightarrow> nat list) \<Rightarrow> int list \<Rightarrow> 'a list \<Rightarrow> int \<Rightarrow> 'a \<Rightarrow> error + int" where
  "get_allowed_max_overlap argsort speaker_end speaker_ids m current_speaker_id =
     (case active_tail argsort speaker_end speaker_ids m of
        Inl e \<Rightarrow> Inl e
      | Inr (ends, ids) \<Rightarrow>
          (case effective_bound ids m current_speaker_id of
             Inl e \<Rightarrow> Inl e
           | Inr m' \<Rightarrow>
               (case py_index ends (- 1) of
                  Inl e \<Rightarrow> Inl e
                | Inr latest \<Rightarrow>
                    (case py_index ends (- m') of
                       Inl e \<Rightarrow> Inl e
                     | Inr earliest \<Rightarrow> Inr (latest - earliest)))))"

text \<open>The end times of the entries of the current speaker.\<close>

definition own_ends :: "int list \<Rightarrow> 'a list \<Rightarrow> 'a \<Rightarrow> int list" where
  "own_ends speaker_end speaker_ids current_speaker_id =
     map fst (filter (\<lambda>p. snd p = current_speaker_id) (zip speaker_end speaker_ids))"

section \<open>reverberant.py: get\_rir\_start\_sample\<close>

text \<open>
  A double is a finite value, an infinity or NaN. A finite value is a real number: the
  doubles are some of the reals, and what is proved of every real holds of every double.
  The comparison is that of IEEE 754: it is false as soon as one side is NaN.
\<close>

datatype fp = Fin real | PosInf | NegInf | NaN

fun fp_less :: "fp \<Rightarrow> fp \<Rightarrow> bool" where
  "fp_less (Fin x) (Fin y) = (x < y)"
| "fp_less (Fin x) PosInf = True"
| "fp_less NegInf (Fin y) = True"
| "fp_less NegInf PosInf = True"
| "fp_less a b = False"

definition fp_le :: "fp \<Rightarrow> fp \<Rightarrow> bool" where
  "fp_le a b = (a \<noteq> NaN \<and> b \<noteq> NaN \<and> \<not> fp_less b a)"

fun fp_abs :: "fp \<Rightarrow> fp" where
  "fp_abs (Fin x) = Fin \<bar>x\<bar>"
| "fp_abs PosInf = PosInf"
| "fp_abs NegInf = PosInf"
| "fp_abs NaN = NaN"

text \<open>
  The product of two doubles is the exact product rounded to the nearest double, ties
  to the even significand. \<open>binade 1100 a 0\<close> is the exponent \<open>e\<close> of the binade
  \<open>2 ^ e \<le> a < 2 ^ (e + 1)\<close> of a positive \<open>a\<close>, kept between the exponent of the
  subnormal numbers, \<open>-1022\<close>, and that of the overflow, \<open>1024\<close>; the doubles of that
  binade are the multiples of \<open>2 ^ (e - 52)\<close>. The result is an infinity when it
  reaches \<open>2 ^ 1024\<close>: in the binade of exponent 1024, or when the multiple of the
  binade of exponent 1023 is rounded up to \<open>2 ^ 53\<close>.
\<close>

fun binade :: "nat \<Rightarrow> real \<Rightarrow> int \<Rightarrow> int" where
  "binade 0 a e = e"
| "binade (Suc n) a e =
     (if 2 \<le> a \<and> e < 1024 then binade n (a / 2) (e + 1)
      else if a < 1 \<and> - 1022 < e then binade n (a * 2) (e - 1)
      else e)"

definition round_half_even :: "real \<Rightarrow> int" where
  "round_half_even x =
     (let f = \<lfloor>x\<rfloor>
      in if x - of_int f < 1 / 2 then f
         else if 1 / 2 < x - of_int f then f + 1
         else if even f then f else f + 1)"

definition round_double :: "real \<Rightarrow> fp" where
  "round_double x =
     (if x = 0 then Fin 0
      else (let a = \<bar>x\<bar>;
                e = binade 1100 a 0;
                ulp = 2 powi (e - 52);
                n = round_half_even (a / ulp)
            in if 1024 \<le> e \<or> (e = 1023 \<and> 2 ^ 53 \<le> n)
               then (if 0 < x then PosInf else NegInf)
               else Fin (if 0 < x then of_int n * ulp else - (of_int n * ulp))))"

fun fp_sign :: "fp \<Rightarrow> int" where
  "fp_sign (Fin x) = (if x < 0 then - 1 else if x = 0 then 0 else 1)"
| "fp_sign PosInf = 1"
| "fp_sign NegInf = - 1"
| "fp_sign NaN = 0"

fun double_product :: "fp \<Rightarrow> fp \<Rightarrow> fp" where
  "double_product (Fin x) (Fin y) = round_double (x * y)"
| "double_product NaN b = NaN"
| "double_product a NaN = NaN"
| "double_product a b =
     (if fp_sign a = 0 \<or> fp_sign b = 0 then NaN
      else if fp_sign a = fp_sign b then PosInf else NegInf)"

text \<open>The double that the literal \<open>1e-1\<close> of the default \<open>level_ratio\<close> denotes.\<close>

definition default_level_ratio :: fp where
  "default_level_ratio = Fin (3602879701896397 / 36028797018963968)"

text \<open>A NumPy array is its shape and its values in row-major order.\<close>

record 'v ndarray =
  shape :: "nat list"
  data :: "'v list"

definition ndim :: "'v ndarray \<Rightarrow> nat" where
  "ndim h = length (shape h)"

text \<open>
  \<open>np.argmax\<close> of a one-dimensional array of doubles, \<open>ValueError\<close> on an empty
  array: the scan that NumPy makes, which keeps the first occurrence of the maximum and
  stops at the first NaN, which counts as the maximum.
\<close>

fun argmax_scan :: "fp \<Rightarrow> nat \<Rightarrow> nat \<Rightarrow> fp list \<Rightarrow> nat" where
  "argmax_scan mp max_ind i [] = max_ind"
| "argmax_scan mp max_ind i (x # xs) =
     (if mp = NaN then max_ind
      else if \<not> fp_le x mp then argmax_scan x i (Suc i) xs
      else argmax_scan mp max_ind (Suc i) xs)"

definition np_argmax_float :: "fp list \<Rightarrow> error + nat" where
  "np_argmax_float xs =
     (case xs of
        [] \<Rightarrow> Inl (ValueError ''attempt to get argmax of an empty sequence'')
      | x # r \<Rightarrow> Inr (argmax_scan x 0 1 r))"

text \<open>
  \<open>np.argmax\<close> of a one-dimensional array of booleans: the maximum is \<open>True\<close> when
  there is one, so the result is the position of the first \<open>True\<close>, and 0 when all
  are \<open>False\<close>.
\<close>

definition np_argmax :: "'a::linorder list \<Rightarrow> error + nat" where
  "np_argmax xs =
     (if xs = [] then Inl (ValueError ''attempt to get argmax of an empty sequence'')
      else Inr (length (takeWhile (\<lambda>x. x \<noteq> Max (set xs)) xs)))"

definition np_min :: "nat list \<Rightarrow> error + nat" where
  "np_min xs =
     (case xs of
        [] \<Rightarrow> Inl (ValueError ''zero-size array to reduction operation minimum'')
      | x # r \<Rightarrow> Inr (fold min r x))"

text \<open>
  \<open>np.reshape(h, (-1, h.shape[-1]))\<close>, as the list of its rows. The unknown dimension
  cannot be inferred when the last axis has length 0.
\<close>

definition reshape_rows :: "'v ndarray \<Rightarrow> error + 'v list list" where
  "reshape_rows h =
     (let t = last (shape h)
      in if t = 0 then Inl (ValueError ''cannot reshape array of size 0'')
         else Inr (map (\<lambda>i. take t (drop (i * t) (data h))) [0..<length (data h) div t]))"

text \<open>
  The body of \<open>get_rir_start_sample\<close> after the test of \<open>h.ndim\<close>, for \<open>h.ndim = 1\<close>.
  The threshold \<open>level_ratio * max_abs_value\<close> is a product of doubles.
\<close>

definition rir_start_1d :: "fp list \<Rightarrow> fp \<Rightarrow> error + nat" where
  "rir_start_1d h level_ratio =
     (let abs_h = map fp_abs h
      in (case np_argmax_float abs_h of
            Inl e \<Rightarrow> Inl e
          | Inr max_index \<Rightarrow>
              (let max_abs_value = abs_h ! max_index;
                   threshold = double_product level_ratio max_abs_value;
                   larger_than_threshold =
                     map (\<lambda>v. fp_less threshold v) (take (max_index + 1) abs_h)
               in np_argmax larger_than_threshold)))"

fun collect :: "(error + 'a) list \<Rightarrow> error + 'a list" where
  "collect [] = Inr []"
| "collect (Inl e # rs) = Inl e"
| "collect (Inr v # rs) = (case collect rs of Inl e \<Rightarrow> Inl e | Inr vs \<Rightarrow> Inr (v # vs))"

text \<open>
  \<open>get_rir_start_sample\<close>. The recursive calls are on the rows of the reshaped array,
  which are one-dimensional, so each of them passes the (same) assertion on
  \<open>level_ratio\<close> and runs the one-dimensional body. A zero-dimensional array cannot
  be indexed.
\<close>

definition get_rir_start_sample :: "fp ndarray \<Rightarrow> fp \<Rightarrow> error + nat" where
  "get_rir_start_sample h level_ratio =
     (if \<not> fp_less level_ratio (Fin 1) then Inl (AssertionError ''level_ratio < 1'')
      else if 1 < ndim h then
        (if \<not> hd (shape h) < 20 then Inl (AssertionError ''h.shape[0] < 20'')
         else (case reshape_rows h of
                 Inl e \<Rightarrow> Inl e
               | Inr rows \<Rightarrow>
                   (case collect (map (\<lambda>row. rir_start_1d row level_ratio) rows) of
                      Inl e \<Rightarrow> Inl e
                    | Inr starts \<Rightarrow> np_min starts)))
      else if ndim h = 0 then Inl IndexError
      else rir_start_1d (data h) level_ratio)"

section \<open>reverberant.py: get\_channel\_slice\<close>

record py_slice =
  slice_start :: "int option"
  slice_stop :: "int option"
  slice_step :: "int option"

text \<open>What \<open>channel_slice\<close> can be, and what \<open>get_channel_slice\<close> returns.\<close>

datatype channel_spec = SliceSpec py_slice | IntSpec int | NoneSpec | StrSpec string

datatype channel_sel = SelSlice py_slice | SelIndex int

definition slice_upto :: "int \<Rightarrow> py_slice" where
  "slice_upto n = \<lparr>slice_start = None, slice_stop = Some n, slice_step = None\<rparr>"

definition slice_all :: py_slice where
  "slice_all = \<lparr>slice_start = None, slice_stop = None, slice_step = None\<rparr>"

definition slice_between :: "int \<Rightarrow> int \<Rightarrow> py_slice" where
  "slice_between a b = \<lparr>slice_start = Some a, slice_stop = Some b, slice_step = None\<rparr>"

text \<open>
  \<open>get_channel_slice\<close>. The first argument is the generator that
  \<open>np.random.default_rng()\<close> hands out, which the program seeds from the entropy of the
  operating system; \<open>rng\<close> is the generator the caller passed, if any. The result holds
  the caller's generator after the call.
\<close>

definition get_channel_slice ::
  "rng \<Rightarrow> channel_spec \<Rightarrow> int option \<Rightarrow> rng option \<Rightarrow> bool \<Rightarrow> error + (channel_sel \<times> rng option)" where
  "get_channel_slice default_rng channel_slice total_num_channels rng squeeze =
     (case channel_slice of
        SliceSpec sl \<Rightarrow>
          (if squeeze then
             (case (slice_stop sl, slice_start sl) of
                (Some b, Some a) \<Rightarrow>
                  if b - a = 1 then Inr (SelIndex a, rng) else Inr (SelSlice sl, rng)
              | _ \<Rightarrow> Inl TypeError)
           else Inr (SelSlice sl, rng))
      | IntSpec n \<Rightarrow>
          (if squeeze \<and> n = 1 then Inr (SelIndex 0, rng)
           else Inr (SelSlice (slice_upto n), rng))
      | NoneSpec \<Rightarrow> Inr (SelSlice slice_all, rng)
      | StrSpec name \<Rightarrow>
          (if name = ''all'' then Inr (SelSlice slice_all, rng)
           else if name = ''one_random'' then
             (case total_num_channels of
                None \<Rightarrow>
                  Inl (ValueError ''total_num_channels must be given to select a random channel'')
              | Some num_channels \<Rightarrow>
                  (case rng of
                     None \<Rightarrow>
                       (case rng_integers 0 num_channels default_rng of
                          Inl e \<Rightarrow> Inl e
                        | Inr (channel, g') \<Rightarrow>
                            Inr (if squeeze then SelIndex channel
                                 else SelSlice (slice_between channel (channel + 1)), None))
                   | Some g \<Rightarrow>
                       (case rng_integers 0 num_channels g of
                          Inl e \<Rightarrow> Inl e
                        | Inr (channel, g') \<Rightarrow>
                            Inr (if squeeze then SelIndex channel
                                 else SelSlice (slice_between channel (channel + 1)), Some g'))))
           else Inl (ValueError ''Unknown channel_slice'')))"

section \<open>reverberant.py: reverberant\_scenario\_map\_fn\<close>

text \<open>Iterating over an array yields its sub-arrays along the first axis.\<close>

definition unstack :: "'v ndarray \<Rightarrow> 'v ndarray list" where
  "unstack h =
     (let inner = tl (shape h); n = prod_list inner
      in map (\<lambda>i. \<lparr>shape = inner, data = take n (drop (i * n) (data h))\<rparr>)
           [0..<hd (shape h)])"

text \<open>
  The synthesizer is modelled in exact arithmetic: its samples are real numbers. As
  doubles they are finite values.
\<close>

definition as_doubles :: "real ndarray \<Rightarrow> fp ndarray" where
  "as_doubles h = \<lparr>shape = shape h, data = map Fin (data h)\<rparr>"

text \<open>
  \<open>rir_start_sample = np.array([get_rir_start_sample(h_k) for h_k in h])\<close>, with the
  default \<open>level_ratio\<close>. A zero-dimensional array cannot be iterated.
\<close>

definition rir_onsets :: "real ndarray \<Rightarrow> error + nat list" where
  "rir_onsets h =
     (if ndim h = 0 then Inl TypeError
      else collect (map (\<lambda>h_k. get_rir_start_sample (as_doubles h_k) default_level_ratio)
                      (unstack h)))"

text \<open>
  The positions a slice selects on an axis of length \<open>n\<close>: Python's \<open>slice.indices\<close>
  followed by \<open>range\<close>.
\<close>

definition slice_indices :: "nat \<Rightarrow> py_slice \<Rightarrow> error + nat list" where
  "slice_indices n sl =
     (let step = (case slice_step sl of None \<Rightarrow> 1 | Some k \<Rightarrow> k)
      in if step = 0 then Inl (ValueError ''slice step cannot be zero'')
         else
           (let lower = (if 0 < step then 0 else - 1);
                upper = (if 0 < step then int n else int n - 1);
                bound = (\<lambda>b. if b < 0 then max (b + int n) lower else min b upper);
                start = (case slice_start sl of
                           None \<Rightarrow> (if step < 0 then upper else lower)
                         | Some a \<Rightarrow> bound a);
                stop = (case slice_stop sl of
                          None \<Rightarrow> (if step < 0 then lower else upper)
                        | Some b \<Rightarrow> bound b);
                len = (if 0 < step
                       then (if start < stop then nat ((stop - start - 1) div step + 1) else 0)
                       else (if stop < start then nat ((start - stop - 1) div (- step) + 1) else 0))
            in Inr (map (\<lambda>i. nat (start + int i * step)) [0..<len])))"

text \<open>\<open>h[..., channel_slice, :]\<close>: a selection on the axis before the last.\<close>

definition axis_row :: "real ndarray \<Rightarrow> nat \<Rightarrow> nat \<Rightarrow> real list" where
  "axis_row h outer i =
     (let t = last (shape h); n = shape h ! (ndim h - 2)
      in take t (drop (i * t) (take (n * t) (drop (outer * n * t) (data h)))))"

definition outer_size :: "real ndarray \<Rightarrow> nat" where
  "outer_size h = prod_list (take (ndim h - 2) (shape h))"

definition select_channels :: "real ndarray \<Rightarrow> channel_sel \<Rightarrow> error + real ndarray" where
  "select_channels h sel =
     (let n = shape h ! (ndim h - 2); lead = take (ndim h - 2) (shape h)
      in (case sel of
            SelSlice sl \<Rightarrow>
              (case slice_indices n sl of
                 Inl e \<Rightarrow> Inl e
               | Inr idx \<Rightarrow>
                   Inr \<lparr>shape = lead @ [length idx, last (shape h)],
                        data = concat (map (\<lambda>outer. concat (map (axis_row h outer) idx))
                                 [0..<outer_size h])\<rparr>)
          | SelIndex c \<Rightarrow>
              (if - int n \<le> c \<and> c < int n then
                 Inr \<lparr>shape = lead @ [last (shape h)],
                      data = concat (map (\<lambda>outer.
                                 axis_row h outer (nat (if c < 0 then c + int n else c)))
                               [0..<outer_size h])\<rparr>
               else Inl IndexError)))"

text \<open>
  The part of the function on \<open>channel_slice\<close>. No generator is passed to
  \<open>get_channel_slice\<close> here, and \<open>squeeze\<close> keeps its default.
\<close>

definition slice_rir :: "rng \<Rightarrow> real ndarray \<Rightarrow> channel_spec \<Rightarrow> error + real ndarray" where
  "slice_rir entropy h channel_slice =
     (if channel_slice = NoneSpec then Inr h
      else (case get_channel_slice entropy channel_slice
                   (Some (int (shape h ! (ndim h - 2)))) None False of
              Inl e \<Rightarrow> Inl e
            | Inr (sel, g) \<Rightarrow> select_channels h sel))"

text \<open>
  \<open>scipy.signal.fftconvolve\<close> along the last axis, in exact arithmetic: the full linear
  convolution, and an empty array of shape \<open>(0,)\<close> when one of the operands is empty.
\<close>

definition conv_full :: "real list \<Rightarrow> real list \<Rightarrow> real list" where
  "conv_full s h =
     map (\<lambda>n. \<Sum>j\<leftarrow>[0..<length s]. if j \<le> n \<and> n - j < length h then s ! j * h ! (n - j) else 0)
       [0..<length s + length h - 1]"

definition channel_rows :: "real ndarray \<Rightarrow> real list list" where
  "channel_rows h_k =
     (let t = last (shape h_k)
      in map (\<lambda>i. take t (drop (i * t) (data h_k))) [0..<hd (shape h_k)])"

text \<open>
  \<open>_convolve\<close>, for \<open>h.ndim = 2\<close> and otherwise. With a channel dimension the assertion
  on \<open>c.shape[-2]\<close> reads the shape \<open>(0,)\<close> of an empty result out of range.
\<close>

definition convolve :: "nat \<Rightarrow> real list \<Rightarrow> real ndarray \<Rightarrow> error + real ndarray" where
  "convolve nd s h_k =
     (if nd = 2 then
        (if s = [] \<or> data h_k = [] then Inr \<lparr>shape = [0], data = []\<rparr>
         else Inr \<lparr>shape = [length s + length (data h_k) - 1],
                  data = conv_full s (data h_k)\<rparr>)
      else
        (if s = [] \<or> data h_k = [] then Inl IndexError
         else Inr \<lparr>shape = [hd (shape h_k), length s + last (shape h_k) - 1],
                  data = concat (map (conv_full s) (channel_rows h_k))\<rparr>))"

text \<open>
  \<open>get_convolved_signals\<close>. The array \<open>h\<close> is given by the list of its per-speaker
  sub-arrays (what \<open>zip(s, h)\<close> reads), \<open>h.ndim\<close> and \<open>rir_length\<close>.
\<close>

definition get_convolved_signals ::
  "nat \<Rightarrow> nat \<Rightarrow> real list list \<Rightarrow> real ndarray list \<Rightarrow> int list \<Rightarrow> int list \<Rightarrow> nat
     \<Rightarrow> error + real ndarray list" where
  "get_convolved_signals nd rir_length s hs num_samples rir_offset k =
     (if length s \<noteq> length hs then Inl (AssertionError ''len(s) == len(h)'')
      else (case collect (map2 (convolve nd) s hs) of
              Inl e \<Rightarrow> Inl e
            | Inr x \<Rightarrow>
                if length x \<noteq> length num_samples
                  then Inl (AssertionError ''len(x) == len(num_samples)'')
                else if \<not> list_all (\<lambda>(x_k, t_k). int (last (shape x_k)) = t_k + int rir_length - 1)
                            (zip x num_samples)
                  then Inl (AssertionError ''x_.shape[-1] == T_ + rir_length - 1'')
                else if \<not> (length x = length rir_offset \<and> length rir_offset = k)
                  then Inl (AssertionError ''len(x) == len(rir_offset) == K'')
                else Inr x))"

definition apply_scale :: "real ndarray list \<Rightarrow> real list \<Rightarrow> real ndarray list" where
  "apply_scale x scale =
     map2 (\<lambda>x_k scale_k. \<lparr>shape = shape x_k, data = map (\<lambda>v. v * scale_k) (data x_k)\<rparr>) x scale"

text \<open>
  The masked copies of the response of one speaker: \<open>h_early[i, ..., stop:] = 0\<close> and
  \<open>h_tail[i, ..., :stop] = 0\<close>, the bound of the slice clamped as Python does.
\<close>

definition mask_early :: "real ndarray \<Rightarrow> int \<Rightarrow> real ndarray" where
  "mask_early h_k stop =
     (let t = last (shape h_k); c = clamp_bound t stop
      in \<lparr>shape = shape h_k,
          data = map (\<lambda>p. if p mod t < c then data h_k ! p else 0) [0..<length (data h_k)]\<rparr>)"

definition mask_tail :: "real ndarray \<Rightarrow> int \<Rightarrow> real ndarray" where
  "mask_tail h_k stop =
     (let t = last (shape h_k); c = clamp_bound t stop
      in \<lparr>shape = shape h_k,
          data = map (\<lambda>p. if p mod t < c then 0 else data h_k ! p) [0..<length (data h_k)]\<rparr>)"

text \<open>The loop \<open>for i in range(h.shape[0])\<close> over the speakers, reading \<open>rir_stop_sample[i]\<close>.\<close>

definition mask_speakers ::
  "(real ndarray \<Rightarrow> int \<Rightarrow> real ndarray) \<Rightarrow> real ndarray list \<Rightarrow> int list \<Rightarrow> error + real ndarray list" where
  "mask_speakers mask_fn hs rir_stop_sample =
     collect (map (\<lambda>i. case py_index rir_stop_sample (int i) of
                          Inl e \<Rightarrow> Inl e
                        | Inr stop \<Rightarrow> Inr (mask_fn (hs ! i) stop))
                [0..<length hs])"

text \<open>
  One of the two optional decompositions: the masked responses, convolved like the full
  ones and scaled with the same factors.
\<close>

definition reverberation_part ::
  "(real ndarray \<Rightarrow> int \<Rightarrow> real ndarray) \<Rightarrow> nat \<Rightarrow> nat \<Rightarrow> real list list \<Rightarrow> real ndarray list \<Rightarrow> int list
     \<Rightarrow> int list \<Rightarrow> int list \<Rightarrow> nat \<Rightarrow> real list \<Rightarrow> error + (real ndarray list \<times> real ndarray list)" where
  "reverberation_part mask_fn nd rir_length s hs rir_stop_sample num_samples rir_offset k scale =
     (case mask_speakers mask_fn hs rir_stop_sample of
        Inl e \<Rightarrow> Inl e
      | Inr h_masked \<Rightarrow>
          (case get_convolved_signals nd rir_length s h_masked num_samples rir_offset k of
             Inl e \<Rightarrow> Inl e
           | Inr x \<Rightarrow> Inr (apply_scale x scale, h_masked)))"

text \<open>
  The example, as far as the function reads it, and its keyword arguments.
  \<open>audio_rir\<close> is \<open>np.asarray(audio_data['rir'])\<close>.
\<close>

record example =
  audio_rir :: "real ndarray"
  audio_original_source :: "real list list"
  offset_source :: "int list"
  num_samples_source :: "int list"
  num_samples_obs :: nat
  speaker_id :: "string list"
  log_weights :: "real list"

record options =
  normalize_sources :: bool
  add_speech_reverberation_early :: bool
  add_speech_reverberation_tail :: bool
  compensate_time_of_flight :: bool
  early_rir_samples :: int
  details :: bool
  channel_slice :: channel_spec

text \<open>
  What the function takes from outside this file: the generator of
  \<open>np.random.default_rng()\<close>, and \<open>get_scale\<close> and \<open>pad_sparse\<close> of
  \<open>mms_msg.simulation.anechoic\<close>, which are parameters of the model, as is the sum of
  the padded speech images that makes the observation.
\<close>

record ('p, 'o) collaborators =
  entropy_rng :: rng
  get_scale :: "real list \<Rightarrow> real ndarray list \<Rightarrow> real list"
  pad_sparse :: "real ndarray list \<Rightarrow> int list \<Rightarrow> nat list \<Rightarrow> 'p"
  sum_images :: "'p \<Rightarrow> nat list \<Rightarrow> 'o"

record ('p, 'o) augmented =
  example_rir :: "real ndarray option"
  speech_source :: 'p
  original_reverberated :: "real ndarray list"
  speech_image :: 'p
  num_samples_original_reverberated :: "nat list"
  offset_original_reverberated :: "int list"
  original_reverberation_early :: "real ndarray list option"
  speech_reverberation_early :: "'p option"
  rir_early :: "real ndarray list option"
  original_reverberation_tail :: "real ndarray list option"
  speech_reverberation_tail :: "'p option"
  rir_tail :: "real ndarray list option"
  observation :: 'o

definition mean :: "real list \<Rightarrow> real" where
  "mean xs = sum_list xs / real (length xs)"

definition optional_part ::
  "bool \<Rightarrow> error + (real ndarray list \<times> real ndarray list) \<Rightarrow> error + (real ndarray list \<times> real ndarray list) option" where
  "optional_part enabled part =
     (if enabled then (case part of Inl e \<Rightarrow> Inl e | Inr r \<Rightarrow> Inr (Some r)) else Inr None)"

definition assert_that :: "bool \<Rightarrow> string \<Rightarrow> error + unit" where
  "assert_that condition text = (if condition then Inr () else Inl (AssertionError text))"

definition reverberant_scenario_map_fn ::
  "('p, 'o) collaborators \<Rightarrow> example \<Rightarrow> options \<Rightarrow> error + ('p, 'o) augmented" where
  "reverberant_scenario_map_fn env ex opt =
     (case rir_onsets (audio_rir ex) of
        Inl e \<Rightarrow> Inl e
      | Inr rir_start_sample \<Rightarrow>
     (case assert_that (2 \<le> ndim (audio_rir ex) \<and> ndim (audio_rir ex) \<le> 3)
             ''2 <= h.ndim <= 3'' of
        Inl e \<Rightarrow> Inl e
      | Inr ok \<Rightarrow>
     (case slice_rir (entropy_rng env) (audio_rir ex) (channel_slice opt) of
        Inl e \<Rightarrow> Inl e
      | Inr h \<Rightarrow>
     (let rir_stop_sample = map (\<lambda>r. int r + early_rir_samples opt) rir_start_sample;
          rir_offset =
            (if compensate_time_of_flight opt
             then map2 (\<lambda>off r. off - int r) (offset_source ex) rir_start_sample
             else offset_source ex);
          k = length (speaker_id ex);
          t = num_samples_obs ex;
          rir_length = last (shape h);
          pad_shape = (if ndim h = 2 then [t] else [shape h ! 1, t]);
          s = (if normalize_sources opt
               then map (\<lambda>s_k. map (\<lambda>v. v - mean s_k) s_k) (audio_original_source ex)
               else audio_original_source ex);
          hs = unstack h
      in (case get_convolved_signals (ndim h) rir_length s hs (num_samples_source ex) rir_offset k of
            Inl e \<Rightarrow> Inl e
          | Inr x \<Rightarrow>
     (let scale = get_scale env (log_weights ex) x;
          reverberated = apply_scale x scale
      in (case optional_part (add_speech_reverberation_early opt)
                 (reverberation_part mask_early (ndim h) rir_length s hs rir_stop_sample
                    (num_samples_source ex) rir_offset k scale) of
            Inl e \<Rightarrow> Inl e
          | Inr early \<Rightarrow>
         (case optional_part (add_speech_reverberation_tail opt)
                 (reverberation_part mask_tail (ndim h) rir_length s hs rir_stop_sample
                    (num_samples_source ex) rir_offset k scale) of
            Inl e \<Rightarrow> Inl e
          | Inr tail \<Rightarrow>
              Inr \<lparr>example_rir = (if channel_slice opt = NoneSpec then None else Some h),
                   speech_source =
                     pad_sparse env
                       (map (\<lambda>s_k. \<lparr>shape = [length s_k], data = s_k\<rparr>) (audio_original_source ex))
                       (offset_source ex) [t],
                   original_reverberated = reverberated,
                   speech_image = pad_sparse env reverberated rir_offset pad_shape,
                   num_samples_original_reverberated = map (\<lambda>a. last (shape a)) reverberated,
                   offset_original_reverberated = rir_offset,
                   original_reverberation_early = map_option fst early,
                   speech_reverberation_early =
                     map_option (\<lambda>p. pad_sparse env (fst p) rir_offset pad_shape) early,
                   rir_early = (if details opt then map_option snd early else None),
                   original_reverberation_tail = map_option fst tail,
                   speech_reverberation_tail =
                     map_option (\<lambda>p. pad_sparse env (fst p) rir_offset pad_shape) tail,
                   rir_tail = (if details opt then map_option snd tail else None),
                   observation =
                     sum_images env (pad_sparse env reverberated rir_offset pad_shape) pad_shape\<rparr>))))))))"

text \<open>The sum of two arrays of the same shape.\<close>

definition array_add :: "real ndarray \<Rightarrow> real ndarray \<Rightarrow> real ndarray" where
  "array_add a b = \<lparr>shape = shape a, data = map2 (+) (data a) (data b)\<rparr>"

text \<open>Two lists of equal length whose sum, element by element, is a third.\<close>

definition splits_sum :: "real list \<Rightarrow> real list \<Rightarrow> real list \<Rightarrow> bool" where
  "splits_sum a b c \<longleftrightarrow> length a = length b \<and> map2 (+) a b = c"

section \<open>Concrete inputs\<close>

definition tight_sampler :: UniformOverlapSampler where
  "tight_sampler = \<lparr>max_concurrent_spk = 2, p_silence = 0, maximum_silence = 10,
     maximum_overlap = 10, minimum_silence = 0, soft_minimum_overlap = 0,
     hard_minimum_overlap = 0, margin = 0\<rparr>"

definition negative_soft_sampler :: UniformOverlapSampler where
  "negative_soft_sampler = \<lparr>max_concurrent_spk = 2, p_silence = 1, maximum_silence = 1,
     maximum_overlap = 0, minimum_silence = 0, soft_minimum_overlap = - 1,
     hard_minimum_overlap = - 1, margin = 0\<rparr>"

definition one_utterance :: examples where
  "one_utterance = \<lparr>offset_original_source = [0], num_samples_observation = [100]\<rparr>"

definition constant_rng :: "nat \<Rightarrow> rng" where
  "constant_rng k = Rng (\<lambda>_. k) 0"




definition twenty_channel_rir :: "fp ndarray" where
  "twenty_channel_rir = \<lparr>shape = [20, 1], data = replicate 20 (Fin 1)\<rparr>"

definition two_speaker_example :: example where
  "two_speaker_example =
     \<lparr>audio_rir = \<lparr>shape = [2, 3], data = [0, 1, 1 / 2, 1, 0, 1 / 4]\<rparr>,
      audio_original_source = [[1, 2], [3]], offset_source = [0, 5],
      num_samples_source = [2, 1], num_samples_obs = 10, speaker_id = [''a'', ''b''],
      log_weights = [0, 0]\<rparr>"

definition both_parts :: options where
  "both_parts =
     \<lparr>normalize_sources = False, add_speech_reverberation_early = True,
      add_speech_reverberation_tail = True, compensate_time_of_flight = True,
      early_rir_samples = 1, details = False, channel_slice = NoneSpec\<rparr>"

definition fixed_scale :: "(unit, unit) collaborators" where
  "fixed_scale =
     \<lparr>entropy_rng = Rng (\<lambda>_. 0) 0, get_scale = (\<lambda>w x. [2, 3]),
      pad_sparse = (\<lambda>x off pad_shape. ()), sum_images = (\<lambda>p pad_shape. ())\<rparr>"

section \<open>Properties of the sampler\<close>

lemma post_init_iff:
  "post_init c = Inr () \<longleftrightarrow>
     margin c \<le> minimum_silence c \<and> minimum_silence c < maximum_silence c \<and>
     soft_minimum_overlap c \<le> maximum_overlap c \<and> hard_minimum_overlap c \<le> maximum_overlap c"
  by (simp add: post_init_def)

lemma rng_integers_Inr:
  "rng_integers low high g = Inr (v, g') \<Longrightarrow> low \<le> v \<and> v < high"
proof -
  assume a: "rng_integers low high g = Inr (v, g')"
  then have lt: "low < high" by (simp add: rng_integers_def split: if_splits)
  obtain r g1 where r: "next_raw g = (r, g1)" by (cases "next_raw g")
  from a lt r have v: "v = low + int r mod (high - low)" by (simp add: rng_integers_def)
  from lt have "0 \<le> int r mod (high - low)" "int r mod (high - low) < high - low"
    by simp_all
  with v show ?thesis by linarith
qed

lemma rng_integers_total:
  "low < high \<Longrightarrow> \<exists>v g'. rng_integers low high g = Inr (v, g')"
  by (simp add: rng_integers_def split: prod.splits)

lemma sample_silence_total:
  "minimum_silence c < maximum_silence c \<Longrightarrow>
   \<exists>v g'. sample_silence c g = Inr (v, g') \<and> minimum_silence c \<le> v \<and> v < maximum_silence c"
  using rng_integers_total [of "minimum_silence c" "maximum_silence c" g] rng_integers_Inr
  unfolding sample_silence_def by blast

lemma sample_silence_Inr:
  "sample_silence c g = Inr (v, g') \<Longrightarrow> minimum_silence c \<le> v \<and> v < maximum_silence c"
  unfolding sample_silence_def by (rule rng_integers_Inr)

lemma clamped_silence_eq:
  "margin c \<le> minimum_silence c \<Longrightarrow> clamped_silence c g = sample_silence c g"
  by (auto simp: clamped_silence_def max_def split: sum.splits dest: sample_silence_Inr)

lemma sample_shift_total:
  "minimum_silence c < maximum_silence c \<Longrightarrow> hard_minimum_overlap c < maximum_overlap c \<Longrightarrow>
   \<exists>v g'. sample_shift c g = Inr (v, g')"
proof -
  assume a: "minimum_silence c < maximum_silence c" "hard_minimum_overlap c < maximum_overlap c"
  obtain u g1 where u: "rng_uniform01 g = (u, g1)" by (cases "rng_uniform01 g")
  from sample_silence_total [OF a(1), of g1] obtain v g2 where s: "sample_silence c g1 = Inr (v, g2)"
    by blast
  from rng_integers_total [OF a(2), of g1] obtain w g3 where o: "sample_overlap c g1 = Inr (w, g3)"
    unfolding sample_overlap_def by blast
  show ?thesis using u s o by (simp add: sample_shift_def)
qed

lemma rejection_loop_accepts:
  "rejection_loop c mo n g = Inr (Some s, g') \<Longrightarrow> - mo + margin c < s"
  by (induction n arbitrary: g) (auto split: sum.splits prod.splits if_splits)

lemma rejection_loop_total:
  "minimum_silence c < maximum_silence c \<Longrightarrow> hard_minimum_overlap c < maximum_overlap c \<Longrightarrow>
   \<exists>res. rejection_loop c mo n g = Inr res"
proof (induction n arbitrary: g)
  case 0
  then show ?case by simp
next
  case (Suc n)
  from sample_shift_total [OF Suc.prems, of g] obtain v g' where "sample_shift c g = Inr (v, g')"
    by blast
  with Suc.IH [OF Suc.prems, of g'] show ?case by auto
qed

lemma latest_end_one_utterance: "latest_end one_utterance = Inr 100"
  by (simp add: latest_end_def one_utterance_def np_add_def np_max_def)

text \<open>
  Claim C6. When the configuration passes \<open>__post_init__\<close> and the allowed overlap is
  at most \<open>hard_minimum_overlap\<close>, \<open>sample_offset\<close> returns for every generator,
  and the shift it adds to the latest end lies in \<open>[minimum_silence, maximum_silence)\<close>
  and is at least \<open>margin\<close>.
\<close>

theorem sample_offset_degenerate_window:
  assumes "post_init c = Inr ()" and "max_overlap \<le> hard_minimum_overlap c"
    and "latest_end ex = Inr m"
  shows "\<exists>r. sample_offset c ex max_overlap g = Inr r \<and>
           minimum_silence c \<le> offset r - m \<and> offset r - m < maximum_silence c \<and>
           margin c \<le> offset r - m"
proof -
  from assms(1) have inv: "margin c \<le> minimum_silence c" "minimum_silence c < maximum_silence c"
    by (simp_all add: post_init_iff)
  from sample_silence_total [OF inv(2), of g] obtain v g'
    where v: "sample_silence c g = Inr (v, g')" "minimum_silence c \<le> v" "v < maximum_silence c"
    by blast
  have "clamped_silence c g = Inr (v, g')"
    using v(1) inv(1) by (simp add: clamped_silence_eq)
  then have "sample_offset c ex max_overlap g =
      Inr \<lparr>offset = m + v, offset_warned = False, offset_rng_after = g'\<rparr>"
    using assms(2,3) by (simp add: sample_offset_def sample_offset_shift_def)
  then show ?thesis using v inv by simp
qed

theorem sample_offset_degenerate_window_witness:
  "post_init tight_sampler = Inr () \<and>
   0 \<le> hard_minimum_overlap tight_sampler \<and>
   latest_end one_utterance = Inr 100 \<and>
   (\<exists>r. sample_offset tight_sampler one_utterance 0 (constant_rng 5) = Inr r \<and>
        minimum_silence tight_sampler \<le> offset r - 100 \<and>
        offset r - 100 < maximum_silence tight_sampler \<and>
        margin tight_sampler \<le> offset r - 100)"
proof -
  have h1: "post_init tight_sampler = Inr ()"
    by (simp add: post_init_def, simp add: tight_sampler_def)
  have h2: "0 \<le> hard_minimum_overlap tight_sampler"
    by (simp add: tight_sampler_def)
  show ?thesis
    using h1 h2 latest_end_one_utterance
      sample_offset_degenerate_window [OF h1 h2 latest_end_one_utterance, of "constant_rng 5"]
    by simp
qed

lemma sample_shift_tight:
  "sample_shift tight_sampler (Rng (\<lambda>_. 5) n) = Inr (- 5, Rng (\<lambda>_. 5) (Suc (Suc n)))"
  by (simp add: sample_shift_def tight_sampler_def rng_uniform01_def next_raw_def
      sample_overlap_def rng_integers_def)

lemma rejection_loop_tight:
  "rejection_loop tight_sampler 3 k (Rng (\<lambda>_. 5) n) = Inr (None, Rng (\<lambda>_. 5) (n + 2 * k))"
  by (induction k arbitrary: n) (simp_all add: sample_shift_tight, simp add: tight_sampler_def)

lemma sample_shift_negative_soft:
  "sample_shift negative_soft_sampler (Rng (\<lambda>_. 0) n) = Inr (0, Rng (\<lambda>_. 0) (Suc (Suc n)))"
  by (simp add: sample_shift_def negative_soft_sampler_def rng_uniform01_def next_raw_def
      sample_silence_def rng_integers_def)

lemma rejection_loop_negative_soft:
  "rejection_loop negative_soft_sampler 0 k (Rng (\<lambda>_. 0) n) = Inr (None, Rng (\<lambda>_. 0) (n + 2 * k))"
  by (induction k arbitrary: n) (simp_all add: sample_shift_negative_soft, simp add: negative_soft_sampler_def)

text \<open>
  Claim C2, as stated, at a configuration that passes \<open>__post_init__\<close> with a negative
  \<open>soft_minimum_overlap\<close>: the allowed overlap \<open>0\<close> is strictly greater than it, all
  100 candidates are rejected, the fallback samples the silence \<open>0\<close>, and the shift
  \<open>0\<close> is not greater than \<open>-0 + margin = 0\<close>.
\<close>

theorem sample_offset_bound_fails_without_overlap:
  "post_init negative_soft_sampler = Inr () \<and>
   soft_minimum_overlap negative_soft_sampler < 0 \<and>
   sample_offset negative_soft_sampler one_utterance 0 (constant_rng 0) =
     Inr \<lparr>offset = 100, offset_warned = True, offset_rng_after = Rng (\<lambda>_. 0) 201\<rparr> \<and>
   \<not> (- 0 + margin negative_soft_sampler < 100 - 100)"
proof -
  have "sample_silence negative_soft_sampler (Rng (\<lambda>_. 0) 200) = Inr (0, Rng (\<lambda>_. 0) 201)"
    by (simp add: sample_silence_def negative_soft_sampler_def rng_integers_def next_raw_def)
  moreover have "rejection_loop negative_soft_sampler 0 100 (Rng (\<lambda>_. 0) 0) = Inr (None, Rng (\<lambda>_. 0) 200)"
    using rejection_loop_negative_soft [of 100 0] by simp
  ultimately have "sample_offset negative_soft_sampler one_utterance 0 (constant_rng 0) =
     Inr \<lparr>offset = 100, offset_warned = True, offset_rng_after = Rng (\<lambda>_. 0) 201\<rparr>"
    by (simp add: sample_offset_def sample_offset_shift_def constant_rng_def
        latest_end_one_utterance, simp add: negative_soft_sampler_def)
  then show ?thesis
    by (simp add: post_init_def, simp add: negative_soft_sampler_def)
qed

text \<open>
  Claim C2, amended. For a configuration that passes \<open>__post_init__\<close> and an allowed
  overlap that is positive and strictly greater than \<open>soft_minimum_overlap\<close>, every
  shift that \<open>sample_offset\<close> adds to the latest end is greater than
  \<open>-max_overlap + margin\<close>, in the accepting branch as in the fallback to silence; and
  \<open>sample_offset\<close> does return when \<open>hard_minimum_overlap < maximum_overlap\<close>.
\<close>

theorem sample_offset_bound_positive_overlap:
  assumes "post_init c = Inr ()" and "soft_minimum_overlap c < max_overlap"
    and "0 < max_overlap" and "latest_end ex = Inr m"
  shows "(\<forall>r. sample_offset c ex max_overlap g = Inr r \<longrightarrow>
            - max_overlap + margin c < offset r - m) \<and>
         (hard_minimum_overlap c < maximum_overlap c \<longrightarrow>
            (\<exists>r. sample_offset c ex max_overlap g = Inr r))"
proof -
  from assms(1) have inv: "margin c \<le> minimum_silence c" "minimum_silence c < maximum_silence c"
    by (simp_all add: post_init_iff)
  have sil: "- max_overlap + margin c < s" if "sample_silence c h = Inr (s, h')" for s h h'
    using sample_silence_Inr [OF that] inv(1) assms(3) by linarith
  have "- max_overlap + margin c < shift r" if r: "sample_offset_shift c max_overlap g = Inr r" for r
  proof (cases "max_overlap \<le> hard_minimum_overlap c")
    case True
    with r inv(1) obtain h' where "sample_silence c g = Inr (shift r, h')"
      by (auto simp: sample_offset_shift_def clamped_silence_eq split: sum.splits)
    then show ?thesis by (rule sil)
  next
    case False
    with r assms(2) obtain res g' where l: "rejection_loop c max_overlap 100 g = Inr (res, g')"
      by (auto simp: sample_offset_shift_def split: sum.splits)
    show ?thesis
    proof (cases res)
      case None
      with r False assms(2) l obtain h' where "sample_silence c g' = Inr (shift r, h')"
        by (auto simp: sample_offset_shift_def split: sum.splits)
      then show ?thesis by (rule sil)
    next
      case (Some s)
      with r False assms(2) l have "shift r = s"
        by (auto simp: sample_offset_shift_def)
      with rejection_loop_accepts [of c max_overlap 100 g s g'] l Some show ?thesis by simp
    qed
  qed
  then have part1: "\<forall>r. sample_offset c ex max_overlap g = Inr r \<longrightarrow>
            - max_overlap + margin c < offset r - m"
    using assms(4) by (auto simp: sample_offset_def split: sum.splits)
  have part2: "\<exists>r. sample_offset c ex max_overlap g = Inr r"
    if h: "hard_minimum_overlap c < maximum_overlap c"
  proof -
    have "\<exists>r. sample_offset_shift c max_overlap g = Inr r"
    proof (cases "max_overlap \<le> hard_minimum_overlap c")
      case True
      from sample_silence_total [OF inv(2), of g] obtain v g' where "sample_silence c g = Inr (v, g')"
        by blast
      with True inv(1) show ?thesis
        by (simp add: sample_offset_shift_def clamped_silence_eq)
    next
      case False
      from rejection_loop_total [OF inv(2) h, of max_overlap 100 g] obtain res g'
        where l: "rejection_loop c max_overlap 100 g = Inr (res, g')" by force
      from sample_silence_total [OF inv(2), of g'] obtain v g'' where "sample_silence c g' = Inr (v, g'')"
        by blast
      with False assms(2) l show ?thesis
        by (cases res) (simp_all add: sample_offset_shift_def)
    qed
    then show ?thesis using assms(4) by (auto simp: sample_offset_def)
  qed
  from part1 part2 show ?thesis by blast
qed

theorem sample_offset_bound_positive_overlap_witness:
  "post_init tight_sampler = Inr () \<and>
   soft_minimum_overlap tight_sampler < 3 \<and> (0::int) < 3 \<and>
   latest_end one_utterance = Inr 100 \<and>
   hard_minimum_overlap tight_sampler < maximum_overlap tight_sampler \<and>
   sample_offset tight_sampler one_utterance 3 (constant_rng 5) =
     Inr \<lparr>offset = 105, offset_warned = True, offset_rng_after = Rng (\<lambda>_. 5) 201\<rparr> \<and>
   - 3 + margin tight_sampler < 105 - 100"
proof -
  have h1: "post_init tight_sampler = Inr ()"
    by (simp add: post_init_def, simp add: tight_sampler_def)
  have h2: "soft_minimum_overlap tight_sampler < 3"
    by (simp add: tight_sampler_def)
  have h3: "(0::int) < 3" by simp
  have h4: "hard_minimum_overlap tight_sampler < maximum_overlap tight_sampler"
    by (simp add: tight_sampler_def)
  have "sample_silence tight_sampler (Rng (\<lambda>_. 5) 200) = Inr (5, Rng (\<lambda>_. 5) 201)"
    by (simp add: sample_silence_def tight_sampler_def rng_integers_def next_raw_def)
  moreover have "rejection_loop tight_sampler 3 100 (Rng (\<lambda>_. 5) 0) = Inr (None, Rng (\<lambda>_. 5) 200)"
    using rejection_loop_tight [of 100 0] by simp
  ultimately have run: "sample_offset tight_sampler one_utterance 3 (constant_rng 5) =
     Inr \<lparr>offset = 105, offset_warned = True, offset_rng_after = Rng (\<lambda>_. 5) 201\<rparr>"
    by (simp add: sample_offset_def sample_offset_shift_def constant_rng_def
        latest_end_one_utterance, simp add: tight_sampler_def)
  from sample_offset_bound_positive_overlap [OF h1 h2 h3 latest_end_one_utterance,
      of "constant_rng 5"] run
  have "- 3 + margin tight_sampler < 105 - 100" by simp
  with h1 h2 h4 latest_end_one_utterance run show ?thesis by simp
qed

text \<open>
  Claim C7. Under the invariant \<open>minimum_silence >= margin\<close> the clamp of the
  hard-minimum branch never changes the sampled silence: on every generator state the
  branch \<open>max(self._sample_silence(rng), self.margin)\<close> and the plain
  \<open>self._sample_silence(rng)\<close> of the fallback are the same function, so the shift
  returned after 100 rejections is the one the hard-minimum branch returns on the state
  the loop left behind (only the warning differs).
\<close>

theorem fallback_equals_hard_minimum_branch:
  assumes "post_init c = Inr ()"
    and "low_overlap \<le> hard_minimum_overlap c"
    and "hard_minimum_overlap c < max_overlap" and "soft_minimum_overlap c < max_overlap"
    and "rejection_loop c max_overlap 100 g0 = Inr (None, g)"
  shows "clamped_silence c g = sample_silence c g \<and>
         (\<exists>s g'. sample_offset_shift c max_overlap g0 =
                    Inr \<lparr>shift = s, warned = True, rng_after = g'\<rparr> \<and>
                  sample_offset_shift c low_overlap g =
                    Inr \<lparr>shift = s, warned = False, rng_after = g'\<rparr>)"
proof -
  from assms(1) have inv: "margin c \<le> minimum_silence c" "minimum_silence c < maximum_silence c"
    by (simp_all add: post_init_iff)
  from sample_silence_total [OF inv(2), of g] obtain s g' where s: "sample_silence c g = Inr (s, g')"
    by blast
  have eq: "clamped_silence c g = sample_silence c g"
    using inv(1) by (rule clamped_silence_eq)
  have "sample_offset_shift c max_overlap g0 = Inr \<lparr>shift = s, warned = True, rng_after = g'\<rparr>"
    using assms(3,4,5) s by (simp add: sample_offset_shift_def)
  moreover have "sample_offset_shift c low_overlap g = Inr \<lparr>shift = s, warned = False, rng_after = g'\<rparr>"
    using assms(2) s eq by (simp add: sample_offset_shift_def)
  ultimately show ?thesis using eq by blast
qed

theorem fallback_equals_hard_minimum_branch_witness:
  "post_init tight_sampler = Inr () \<and>
   0 \<le> hard_minimum_overlap tight_sampler \<and>
   hard_minimum_overlap tight_sampler < 3 \<and>
   soft_minimum_overlap tight_sampler < 3 \<and>
   rejection_loop tight_sampler 3 100 (Rng (\<lambda>_. 5) 0) = Inr (None, Rng (\<lambda>_. 5) 200) \<and>
   clamped_silence tight_sampler (Rng (\<lambda>_. 5) 200) =
     sample_silence tight_sampler (Rng (\<lambda>_. 5) 200) \<and>
   (\<exists>s g'. sample_offset_shift tight_sampler 3 (Rng (\<lambda>_. 5) 0) =
              Inr \<lparr>shift = s, warned = True, rng_after = g'\<rparr> \<and>
            sample_offset_shift tight_sampler 0 (Rng (\<lambda>_. 5) 200) =
              Inr \<lparr>shift = s, warned = False, rng_after = g'\<rparr>)"
proof -
  have h1: "post_init tight_sampler = Inr ()"
    by (simp add: post_init_def, simp add: tight_sampler_def)
  have h2: "0 \<le> hard_minimum_overlap tight_sampler"
    and h3: "hard_minimum_overlap tight_sampler < 3"
    and h4: "soft_minimum_overlap tight_sampler < 3"
    by (simp_all add: tight_sampler_def)
  have h5: "rejection_loop tight_sampler 3 100 (Rng (\<lambda>_. 5) 0) = Inr (None, Rng (\<lambda>_. 5) 200)"
    using rejection_loop_tight [of 100 0] by simp
  show ?thesis
    using h1 h2 h3 h4 h5 fallback_equals_hard_minimum_branch [OF h1 h2 h3 h4 h5]
    by simp
qed

section \<open>Properties of get\_allowed\_max\_overlap\<close>

lemma list_index_Inr:
  "list_index xs v = Inr p \<Longrightarrow> p < length xs \<and> xs ! p = v \<and> (\<forall>q<p. xs ! q \<noteq> v)"
proof (induction xs arbitrary: p)
  case Nil
  then show ?case by simp
next
  case (Cons x xs)
  show ?case
  proof (cases "x = v")
    case True
    with Cons.prems show ?thesis by simp
  next
    case False
    with Cons.prems obtain i where i: "list_index xs v = Inr i" "p = Suc i"
      by (auto split: sum.splits)
    from Cons.IH [OF i(1)] False i(2) show ?thesis
      by (auto simp: nth_Cons split: nat.splits)
  qed
qed

lemma list_index_total: "v \<in> set xs \<Longrightarrow> \<exists>p. list_index xs v = Inr p"
  by (induction xs) auto

lemma is_argsort_mset: "is_argsort f \<Longrightarrow> mset (f xs) = mset [0..<length xs]"
  by (simp add: is_argsort_def)

lemma is_argsort_sorted: "is_argsort f \<Longrightarrow> sorted (map ((!) xs) (f xs))"
  by (simp add: is_argsort_def)

lemma is_argsort_length: "is_argsort f \<Longrightarrow> length (f xs) = length xs"
  using is_argsort_mset [of f xs] mset_eq_length by fastforce

lemma is_argsort_set: "is_argsort f \<Longrightarrow> set (f xs) = {0..<length xs}"
  using is_argsort_mset [of f xs] mset_eq_setD by fastforce

lemma is_argsort_sort:
  assumes "is_argsort f"
  shows "map ((!) xs) (f xs) = sort xs"
proof -
  have "mset (map ((!) xs) (f xs)) = image_mset ((!) xs) (mset [0..<length xs])"
    using is_argsort_mset [OF assms, of xs] by simp
  also have "\<dots> = mset (map ((!) xs) [0..<length xs])" by simp
  also have "\<dots> = mset xs" by (simp add: map_nth)
  finally have "mset (map ((!) xs) (f xs)) = mset xs" .
  then show ?thesis
    using is_argsort_sorted [OF assms, of xs] by (rule properties_for_sort [symmetric])
qed

lemma stable_argsort_ok: "is_argsort stable_argsort"
  by (simp add: is_argsort_def stable_argsort_def)

lemma sorted_last_Max:
  fixes S :: "int list"
  assumes "sorted S" "S \<noteq> []"
  shows "S ! (length S - 1) = Max (set S)"
proof -
  have "S ! (length S - 1) \<in> set S" using assms(2) by simp
  moreover have "x \<le> S ! (length S - 1)" if "x \<in> set S" for x
  proof -
    from that obtain i where "i < length S" "S ! i = x" by (auto simp: in_set_conv_nth)
    with assms(1) show ?thesis by (auto intro: sorted_nth_mono)
  qed
  ultimately show ?thesis by (intro Max_eqI [symmetric]) auto
qed

lemma own_ends_iff:
  "c \<in> set (own_ends ends ids cur) \<longleftrightarrow> (\<exists>i. i < length ends \<and> i < length ids \<and> ends ! i = c \<and> ids ! i = cur)"
  by (auto simp: own_ends_def in_set_zip image_iff) 

lemma pad_speaker_end_length:
  "0 < m \<Longrightarrow> length (pad_speaker_end ends m) = max (length ends) (nat m)"
  by (auto simp: pad_speaker_end_def max_def)

lemma pad_speaker_ids_length:
  "length ids = length ends \<Longrightarrow> length (pad_speaker_ids ids m ends) = length (pad_speaker_end ends m)"
  by (auto simp: pad_speaker_ids_def pad_speaker_end_def max_def)

lemma pad_speaker_ids_nth:
  "length ids = length ends \<Longrightarrow> i < length (pad_speaker_ids ids m ends) \<Longrightarrow>
   pad_speaker_ids ids m ends ! i = (if i < length ends then Some (ids ! i) else None)"
  by (auto simp: pad_speaker_ids_def nth_append)

lemma pad_speaker_end_nth:
  "i < length ends \<Longrightarrow> pad_speaker_end ends m ! i = ends ! i"
  by (simp add: pad_speaker_end_def nth_append)

lemma active_tail_eq:
  assumes "is_argsort f" and "length ids = length ends" and "0 < m"
  shows "active_tail f ends ids m =
     Inr (drop (length (pad_speaker_end ends m) - nat m) (sort (pad_speaker_end ends m)),
          map ((!) (pad_speaker_ids ids m ends))
            (drop (length (pad_speaker_end ends m) - nat m) (f (pad_speaker_end ends m))))"
proof -
  let ?xs = "pad_speaker_end ends m" and ?ps = "pad_speaker_ids ids m ends"
  let ?N = "length ?xs"
  let ?J = "drop (?N - nat m) (f ?xs)"
  have len: "length (f ?xs) = ?N" using assms(1) by (rule is_argsort_length)
  have J: "slice_from (f ?xs) (- m) = ?J"
    using assms(3) len by (simp add: slice_from_def clamp_bound_def nat_diff_distrib' max_def)
  have "set ?J \<subseteq> {0..<?N}"
    using is_argsort_set [OF assms(1), of ?xs] set_drop_subset [of "?N - nat m" "f ?xs"] by simp
  then have inb: "list_all (\<lambda>i. i < ?N) ?J"
    by (auto simp: list_all_iff)
  have t1: "take_indices ?xs ?J = Inr (map ((!) ?xs) ?J)"
    using inb by (simp add: take_indices_def)
  have t2: "take_indices ?ps ?J = Inr (map ((!) ?ps) ?J)"
    using inb pad_speaker_ids_length [OF assms(2), of m] by (simp add: take_indices_def)
  have "map ((!) ?xs) ?J = drop (?N - nat m) (sort ?xs)"
    using is_argsort_sort [OF assms(1), of ?xs] by (simp add: drop_map [symmetric])
  with t1 t2 J show ?thesis
    by (simp add: active_tail_def Let_def)
qed

lemma get_allowed_max_overlap_value:
  fixes ends :: "int list" and ids :: "'a list"
  assumes arg: "is_argsort f" and wf: "length ids = length ends" and m: "0 < m"
  defines "xs \<equiv> pad_speaker_end ends m"
  defines "b \<equiv> sort xs ! (length xs - nat m)"
  shows "get_allowed_max_overlap f ends ids m cur =
     Inr (Max (set xs) -
          (if cur \<in> set ids then max (Max (set (own_ends ends ids cur))) b else b))"
proof -
  define ps where "ps = pad_speaker_ids ids m ends"
  define N where "N = length xs"
  define M where "M = nat m"
  define idx where "idx = f xs"
  define S where "S = sort xs"
  define E where "E = drop (N - M) S"
  define I where "I = map ((!) ps) (drop (N - M) idx)"
  have M1: "1 \<le> M" and Mm: "int M = m" using m by (simp_all add: M_def)
  have N: "N = max (length ends) M"
    using m by (simp add: N_def xs_def M_def pad_speaker_end_length)
  then have MN: "M \<le> N" by simp
  have lidx: "length idx = N" unfolding idx_def N_def using arg by (rule is_argsort_length)
  have sidx: "set idx = {0..<N}" unfolding idx_def N_def using arg by (rule is_argsort_set)
  have Sidx: "S = map ((!) xs) idx" unfolding S_def idx_def using arg by (rule is_argsort_sort [symmetric])
  have sS: "sorted S" and lS: "length S = N" and setS: "set S = set xs"
    by (simp_all add: S_def N_def)
  have lps: "length ps = N"
    using wf by (simp add: ps_def N_def xs_def pad_speaker_ids_length)
  have psn: "ps ! i = (if i < length ends then Some (ids ! i) else None)" if "i < N" for i
    using that wf lps unfolding ps_def by (simp add: pad_speaker_ids_nth)
  have xsn: "xs ! i = ends ! i" if "i < length ends" for i
    using that by (simp add: xs_def pad_speaker_end_nth)
  have tail: "active_tail f ends ids m = Inr (E, I)"
    using active_tail_eq [OF arg wf m]
    by (simp add: E_def I_def S_def N_def M_def xs_def ps_def idx_def)
  have lE: "length E = M" and lI: "length I = M"
    using MN lS lidx by (simp_all add: E_def I_def)
  have En: "E ! k = S ! (N - M + k)" if "k < M" for k
    using that MN lS by (simp add: E_def)
  have In: "I ! k = ps ! (idx ! (N - M + k))" if "k < M" for k
    using that MN lidx by (simp add: I_def)
  have Sn: "S ! q = xs ! (idx ! q)" if "q < N" for q
    using that lidx by (simp add: Sidx)
  have bS: "b = S ! (N - M)" by (simp add: b_def S_def N_def M_def)
  have "S \<noteq> []" using lS M1 MN by auto
  from sorted_last_Max [OF sS this] have "S ! (N - 1) = Max (set xs)"
    by (simp add: lS setS)
  moreover have "E ! (M - 1) = S ! (N - 1)" using En [of "M - 1"] M1 MN by simp
  ultimately have latest: "py_index E (- 1) = Inr (Max (set xs))"
    using M1 lE by (simp add: py_index_def nat_diff_distrib')
  have own: "c \<in> set (own_ends ends ids cur) \<longleftrightarrow> (\<exists>i<length ends. ends ! i = c \<and> ids ! i = cur)" for c
    using wf by (auto simp: own_ends_iff)
  have pos: "\<exists>q<N. idx ! q = i" if "i < length ends" for i
  proof -
    from that N have "i \<in> set idx" by (simp add: sidx)
    then show ?thesis using lidx by (auto simp: in_set_conv_nth)
  qed
  show ?thesis
  proof (cases "Some cur \<in> set I")
    case True
    then have "Some cur \<in> set (rev I)" by simp
    from list_index_total [OF this] obtain p where p: "list_index (rev I) (Some cur) = Inr p"
      by blast
    from list_index_Inr [OF p] have pM: "p < M" and pv: "rev I ! p = Some cur"
      and pmin: "\<forall>q<p. rev I ! q \<noteq> Some cur" by (simp_all add: lI)
    define k where "k = M - 1 - p"
    have kM: "k < M" using pM by (simp add: k_def)
    have Ik: "I ! k = Some cur" using pv pM by (simp add: rev_nth lI k_def)
    have later: "I ! q \<noteq> Some cur" if "k < q" "q < M" for q
    proof -
      from that pM have "M - 1 - q < p" by (simp add: k_def)
      with pmin have "rev I ! (M - 1 - q) \<noteq> Some cur" by blast
      moreover have "rev I ! (M - 1 - q) = I ! q"
        using that by (simp add: rev_nth lI)
      ultimately show ?thesis by simp
    qed
    have eb: "effective_bound I m cur = Inr (int p + 1)"
      using True p by (simp add: effective_bound_def)
    have "int M + - (int p + 1) = int k" using pM by (simp add: k_def)
    then have "nat (int M + - (int p + 1)) = k" "0 \<le> int M + - (int p + 1)"
      "int M + - (int p + 1) < int M" using kM by simp_all
    then have earliest: "py_index E (- (int p + 1)) = Inr (E ! k)"
      unfolding py_index_def lE by simp
    define i0 where "i0 = idx ! (N - M + k)"
    have i0N: "i0 < N"
    proof -
      have "i0 \<in> set idx" unfolding i0_def using kM MN lidx by simp
      then show ?thesis by (simp add: sidx)
    qed
    have "ps ! i0 = Some cur" using Ik In [OF kM] by (simp add: i0_def)
    with psn [OF i0N] have i0: "i0 < length ends" "ids ! i0 = cur"
      by (simp_all split: if_splits)
    then have cur_in: "cur \<in> set ids" using wf by (metis nth_mem)
    have Ek: "E ! k = ends ! i0"
      using En [OF kM] Sn [of "N - M + k"] kM MN xsn [OF i0(1)] by (simp add: i0_def)
    have mem: "E ! k \<in> set (own_ends ends ids cur)"
      using i0 Ek by (auto simp: own)
    have upper: "c \<le> E ! k" if "c \<in> set (own_ends ends ids cur)" for c
    proof -
      from that obtain i where i: "i < length ends" "ends ! i = c" "ids ! i = cur"
        by (auto simp: own)
      from pos [OF i(1)] obtain q where q: "q < N" "idx ! q = i" by blast
      have Sq: "S ! q = c" using Sn [OF q(1)] q(2) xsn [OF i(1)] i(2) by simp
      show ?thesis
      proof (cases "q \<le> N - M + k")
        case True
        have "S ! q \<le> S ! (N - M + k)"
          using sS True kM MN lS by (intro sorted_nth_mono) auto
        with Sq En [OF kM] show ?thesis by simp
      next
        case False
        define q' where "q' = q - (N - M)"
        from False q(1) MN have q': "k < q'" "q' < M" "N - M + q' = q"
          by (auto simp: q'_def)
        have "I ! q' = ps ! i" using In [OF q'(2)] q'(3) q(2) by simp
        also have "\<dots> = Some cur" using psn [of i] i N by simp
        finally show ?thesis using later [OF q'(1,2)] by simp
      qed
    qed
    have Max_own: "Max (set (own_ends ends ids cur)) = E ! k"
      using mem upper by (intro Max_eqI) auto
    have "b \<le> E ! k"
    proof -
      have "S ! (N - M) \<le> S ! (N - M + k)"
        using sS kM MN lS by (intro sorted_nth_mono) auto
      then show ?thesis using bS En [OF kM] by simp
    qed
    with Max_own cur_in have "(if cur \<in> set ids then max (Max (set (own_ends ends ids cur))) b else b) = E ! k"
      by simp
    moreover have "get_allowed_max_overlap f ends ids m cur = Inr (Max (set xs) - E ! k)"
      using tail eb latest earliest by (simp add: get_allowed_max_overlap_def)
    ultimately show ?thesis by simp
  next
    case False
    have eb: "effective_bound I m cur = Inr m"
      using False by (simp add: effective_bound_def)
    have "E ! 0 = b" using En [of 0] M1 bS by simp
    then have earliest: "py_index E (- m) = Inr b"
      using lE M1 Mm by (simp add: py_index_def)
    have val: "get_allowed_max_overlap f ends ids m cur = Inr (Max (set xs) - b)"
      using tail eb latest earliest by (simp add: get_allowed_max_overlap_def)
    show ?thesis
    proof (cases "cur \<in> set ids")
      case True
      then obtain i where i: "i < length ends" "ids ! i = cur"
        using wf by (auto simp: in_set_conv_nth)
      then have "ends ! i \<in> set (own_ends ends ids cur)" unfolding own by blast
      then have ne: "set (own_ends ends ids cur) \<noteq> {}" by auto
      have "c \<le> b" if "c \<in> set (own_ends ends ids cur)" for c
      proof -
        from that obtain i where i: "i < length ends" "ends ! i = c" "ids ! i = cur"
          by (auto simp: own)
        from pos [OF i(1)] obtain q where q: "q < N" "idx ! q = i" by blast
        have Sq: "S ! q = c" using Sn [OF q(1)] q(2) xsn [OF i(1)] i(2) by simp
        have "q < N - M"
        proof (rule ccontr)
          assume "\<not> q < N - M"
          define q' where "q' = q - (N - M)"
          from \<open>\<not> q < N - M\<close> q(1) MN have q': "q' < M" "N - M + q' = q"
            by (auto simp: q'_def)
          have "I ! q' = ps ! i" using In [OF q'(1)] q'(2) q(2) by simp
          also have "\<dots> = Some cur" using psn [of i] i N by simp
          finally have "Some cur \<in> set I" using q'(1) lI by (metis nth_mem)
          with False show False by simp
        qed
        then have "S ! q \<le> S ! (N - M)"
          using sS MN M1 lS by (intro sorted_nth_mono) auto
        with Sq bS show ?thesis by simp
      qed
      with ne have "Max (set (own_ends ends ids cur)) \<le> b" by simp
      with True val show ?thesis by (simp add: max_def)
    next
      case False
      with val show ?thesis by simp
    qed
  qed
qed









text \<open>
  What the active tail and the returned overlap are, whatever the order in which
  \<open>np.argsort\<close> puts equal end times: the end times of the tail are the
  \<open>max_concurrent_spk\<close> largest padded end times in ascending order, every entry of the
  tail is an end time with the speaker id of its own input position, and the overlap is
  the one obtained with the sort that breaks ties by position.
\<close>

lemma active_tail_ends_and_overlap:
  assumes "is_argsort f" and "length ids = length ends" and "0 < m"
  shows "\<exists>E I. active_tail f ends ids m = Inr (E, I) \<and>
           E = drop (length (pad_speaker_end ends m) - nat m) (sort (pad_speaker_end ends m)) \<and>
           length E = nat m \<and> length I = nat m \<and>
           mset (zip E I) \<subseteq># mset (zip (pad_speaker_end ends m) (pad_speaker_ids ids m ends)) \<and>
           get_allowed_max_overlap f ends ids m cur =
             get_allowed_max_overlap stable_argsort ends ids m cur"
proof -
  let ?xs = "pad_speaker_end ends m" and ?ps = "pad_speaker_ids ids m ends"
  let ?N = "length ?xs"
  let ?J = "drop (?N - nat m) (f ?xs)"
  let ?E = "drop (?N - nat m) (sort ?xs)" and ?I = "map ((!) ?ps) ?J"
  have tail: "active_tail f ends ids m = Inr (?E, ?I)"
    using assms by (rule active_tail_eq)
  have N: "nat m \<le> ?N" using pad_speaker_end_length [OF assms(3), of ends] by simp
  have lf: "length (f ?xs) = ?N" using assms(1) by (rule is_argsort_length)
  have lE: "length ?E = nat m" using N by simp
  have lI: "length ?I = nat m" using N lf by simp
  have lps: "length ?ps = ?N" using assms(2) by (rule pad_speaker_ids_length)
  have E: "?E = map ((!) ?xs) ?J"
    using is_argsort_sort [OF assms(1), of ?xs] by (simp add: drop_map [symmetric])
  have z: "zip ?E ?I = map (\<lambda>i. (?xs ! i, ?ps ! i)) ?J"
    unfolding E by (simp add: zip_map_map zip_same_conv_map)
  have all: "map (\<lambda>i. (?xs ! i, ?ps ! i)) [0..<?N] = zip ?xs ?ps"
    using lps by (intro nth_equalityI) auto
  have "mset ?J \<subseteq># mset (f ?xs)"
    by (metis append_take_drop_id mset_append mset_subset_eq_add_right)
  then have "mset ?J \<subseteq># mset [0..<?N]"
    using is_argsort_mset [OF assms(1), of ?xs] by simp
  then have "image_mset (\<lambda>i. (?xs ! i, ?ps ! i)) (mset ?J)
      \<subseteq># image_mset (\<lambda>i. (?xs ! i, ?ps ! i)) (mset [0..<?N])"
    by (rule image_mset_subseteq_mono)
  then have sub: "mset (zip ?E ?I) \<subseteq># mset (zip ?xs ?ps)"
    unfolding z all [symmetric] by simp
  have indep: "get_allowed_max_overlap f ends ids m cur =
      get_allowed_max_overlap stable_argsort ends ids m cur"
    using get_allowed_max_overlap_value [OF assms, of cur]
      get_allowed_max_overlap_value [OF stable_argsort_ok assms(2,3), of cur] by simp
  from tail lE lI sub indep show ?thesis by blast
qed



section \<open>Properties of get\_rir\_start\_sample and get\_channel\_slice\<close>

lemma default_level_ratio_literal: "round_double (1 / 10) = default_level_ratio"
  unfolding default_level_ratio_def by code_simp









text \<open>
  Claim C10. On an array with a channel dimension whose leading dimension is 20 or more,
  \<open>get_rir_start_sample\<close> fails an assertion and returns no onset: the assertion on
  \<open>h.shape[0]\<close> when \<open>level_ratio < 1\<close>, the one on \<open>level_ratio\<close> otherwise.
\<close>

theorem rir_start_rejects_twenty_channels:
  assumes "1 < ndim h" and "20 \<le> hd (shape h)"
  shows "get_rir_start_sample h level_ratio =
     Inl (AssertionError
            (if fp_less level_ratio (Fin 1) then ''h.shape[0] < 20'' else ''level_ratio < 1''))"
  using assms by (simp add: get_rir_start_sample_def)

theorem rir_start_rejects_twenty_channels_witness:
  "1 < ndim twenty_channel_rir \<and> 20 \<le> hd (shape twenty_channel_rir) \<and>
   get_rir_start_sample twenty_channel_rir default_level_ratio =
     Inl (AssertionError ''h.shape[0] < 20'')"
proof -
  have h1: "1 < ndim twenty_channel_rir" by (simp add: ndim_def twenty_channel_rir_def)
  have h2: "20 \<le> hd (shape twenty_channel_rir)" by (simp add: twenty_channel_rir_def)
  have lt: "fp_less default_level_ratio (Fin 1)" by code_simp
  from rir_start_rejects_twenty_channels [OF h1 h2, of default_level_ratio] h1 h2 lt
  show ?thesis by simp
qed

text \<open>
  Claim C1, as stated, at a call with \<open>channel_slice='one_random'\<close>, a channel count of
  4 and no generator: the call does not fail, it returns the channel range \<open>3:4\<close> drawn
  from the default generator.
\<close>

theorem one_random_without_rng_draws_from_default:
  "get_channel_slice (constant_rng 7) (StrSpec ''one_random'') (Some 4) None False =
     Inr (SelSlice (slice_between 3 4), None)"
  by (simp add: get_channel_slice_def constant_rng_def rng_integers_def next_raw_def)

text \<open>
  Claim C1, amended. With \<open>channel_slice='one_random'\<close>: when the channel count is
  missing, \<open>get_channel_slice\<close> raises the \<open>ValueError\<close> that names it, whether or not
  a generator was passed; when only the generator is missing and the channel count is
  positive, the call returns a channel of \<open>[0, total_num_channels)\<close> drawn from the
  generator that \<open>np.random.default_rng()\<close> hands out.
\<close>

theorem one_random_missing_arguments:
  "get_channel_slice default_rng (StrSpec ''one_random'') None rng squeeze =
     Inl (ValueError ''total_num_channels must be given to select a random channel'') \<and>
   (0 < n \<longrightarrow>
     (\<exists>channel g'. rng_integers 0 n default_rng = Inr (channel, g') \<and>
        0 \<le> channel \<and> channel < n \<and>
        get_channel_slice default_rng (StrSpec ''one_random'') (Some n) None squeeze =
          Inr (if squeeze then SelIndex channel
               else SelSlice (slice_between channel (channel + 1)), None)))"
proof -
  have a: "get_channel_slice default_rng (StrSpec ''one_random'') None rng squeeze =
     Inl (ValueError ''total_num_channels must be given to select a random channel'')"
    by (simp add: get_channel_slice_def)
  have b: "\<exists>channel g'. rng_integers 0 n default_rng = Inr (channel, g') \<and>
        0 \<le> channel \<and> channel < n \<and>
        get_channel_slice default_rng (StrSpec ''one_random'') (Some n) None squeeze =
          Inr (if squeeze then SelIndex channel
               else SelSlice (slice_between channel (channel + 1)), None)" if "0 < n"
  proof -
    from rng_integers_total [OF that, of default_rng] obtain c g'
      where c: "rng_integers 0 n default_rng = Inr (c, g')" by blast
    from rng_integers_Inr [OF c] c show ?thesis
      by (simp add: get_channel_slice_def)
  qed
  from a b show ?thesis by blast
qed

theorem one_random_missing_arguments_witness:
  "(0::int) < 4 \<and>
   get_channel_slice (constant_rng 7) (StrSpec ''one_random'') None None False =
     Inl (ValueError ''total_num_channels must be given to select a random channel'') \<and>
   rng_integers 0 4 (constant_rng 7) = Inr (3, Rng (\<lambda>_. 7) 1) \<and>
   get_channel_slice (constant_rng 7) (StrSpec ''one_random'') (Some 4) None False =
     Inr (SelSlice (slice_between 3 4), None)"
proof -
  have r: "rng_integers 0 4 (constant_rng 7) = Inr (3, Rng (\<lambda>_. 7) 1)"
    by (simp add: constant_rng_def rng_integers_def next_raw_def)
  from one_random_missing_arguments [of "constant_rng 7" None False 4] r show ?thesis by simp
qed

section \<open>Properties of reverberant\_scenario\_map\_fn\<close>

lemma splits_sum_length:
  "splits_sum a b c \<Longrightarrow> length a = length c \<and> length b = length c"
  by (auto simp: splits_sum_def)

lemma splits_sum_nth:
  "splits_sum a b c \<Longrightarrow> q < length c \<Longrightarrow> a ! q + b ! q = c ! q"
  by (auto simp: splits_sum_def)

lemma splits_sum_window:
  "splits_sum a b c \<Longrightarrow> splits_sum (take n (drop m a)) (take n (drop m b)) (take n (drop m c))"
  by (auto simp: splits_sum_def take_map drop_map take_zip drop_zip)

lemma splits_sum_scale:
  "splits_sum a b c \<Longrightarrow> splits_sum (map (\<lambda>v. v * k) a) (map (\<lambda>v. v * k) b) (map (\<lambda>v. v * k) c)"
proof -
  assume a: "splits_sum a b c"
  then have l: "length a = length b" and c: "c = map2 (+) a b" by (simp_all add: splits_sum_def)
  have "map2 (+) (map (\<lambda>v. v * k) a) (map (\<lambda>v. v * k) b) = map (\<lambda>v. v * k) (map2 (+) a b)"
    using l by (intro nth_equalityI) (simp_all add: distrib_right)
  with l c show ?thesis by (simp add: splits_sum_def)
qed

lemma splits_sum_append:
  "splits_sum a b c \<Longrightarrow> splits_sum a' b' c' \<Longrightarrow> splits_sum (a @ a') (b @ b') (c @ c')"
  by (auto simp: splits_sum_def)

lemma splits_sum_concat:
  "(\<And>i. i \<in> set is \<Longrightarrow> splits_sum (fa i) (fb i) (fc i)) \<Longrightarrow>
   splits_sum (concat (map fa is)) (concat (map fb is)) (concat (map fc is))"
proof (induction "is")
  case Nil
  then show ?case by (simp add: splits_sum_def)
next
  case (Cons i "is")
  then show ?case by (simp add: splits_sum_append)
qed

lemma conv_full_length: "length (conv_full s h) = length s + length h - 1"
  by (simp add: conv_full_def)

lemma conv_full_nth:
  "n < length s + length h - 1 \<Longrightarrow>
   conv_full s h ! n =
     (\<Sum>j\<leftarrow>[0..<length s]. if j \<le> n \<and> n - j < length h then s ! j * h ! (n - j) else 0)"
  unfolding conv_full_def by (subst nth_map) (simp_all cong: if_cong)

lemma splits_sum_conv:
  assumes "splits_sum e t r"
  shows "splits_sum (conv_full s e) (conv_full s t) (conv_full s r)"
proof -
  from splits_sum_length [OF assms] have le: "length e = length r" and lt: "length t = length r"
    by simp_all
  have "conv_full s e ! n + conv_full s t ! n = conv_full s r ! n"
    if n: "n < length s + length r - 1" for n
  proof -
    have "(if j \<le> n \<and> n - j < length e then s ! j * e ! (n - j) else 0) +
          (if j \<le> n \<and> n - j < length t then s ! j * t ! (n - j) else 0) =
          (if j \<le> n \<and> n - j < length r then s ! j * r ! (n - j) else 0)" for j
      using splits_sum_nth [OF assms, of "n - j"] le lt
      by (simp add: distrib_left [symmetric])
    then have "(\<Sum>j\<leftarrow>[0..<length s]. if j \<le> n \<and> n - j < length e then s ! j * e ! (n - j) else 0) +
          (\<Sum>j\<leftarrow>[0..<length s]. if j \<le> n \<and> n - j < length t then s ! j * t ! (n - j) else 0) =
          (\<Sum>j\<leftarrow>[0..<length s]. if j \<le> n \<and> n - j < length r then s ! j * r ! (n - j) else 0)"
      by (simp only: sum_list_addf [symmetric])
    then show ?thesis
      using n le lt by (simp only: conv_full_nth)
  qed
  then have "map2 (+) (conv_full s e) (conv_full s t) = conv_full s r"
    using le lt by (intro nth_equalityI) (simp_all add: conv_full_length)
  then show ?thesis
    using le lt by (simp add: splits_sum_def conv_full_length)
qed


lemma splits_sum_mask:
  "splits_sum (data (mask_early h_k stop)) (data (mask_tail h_k stop)) (data h_k)"
proof -
  have "map2 (+) (data (mask_early h_k stop)) (data (mask_tail h_k stop)) = data h_k"
    by (rule nth_equalityI) (simp_all add: mask_early_def mask_tail_def Let_def)
  then show ?thesis
    by (simp add: splits_sum_def mask_early_def mask_tail_def Let_def)
qed

lemma mask_shape: "shape (mask_early h_k stop) = shape h_k" "shape (mask_tail h_k stop) = shape h_k"
  by (simp_all add: mask_early_def mask_tail_def Let_def)

lemma mask_data_Nil:
  "data (mask_early h_k stop) = [] \<longleftrightarrow> data h_k = []"
  "data (mask_tail h_k stop) = [] \<longleftrightarrow> data h_k = []"
  by (simp_all add: mask_early_def mask_tail_def Let_def)

lemma convolve_decomposition:
  assumes "convolve nd s h_k = Inr x"
    and "convolve nd s (mask_early h_k stop) = Inr xe"
    and "convolve nd s (mask_tail h_k stop) = Inr xt"
  shows "shape xe = shape x \<and> shape xt = shape x \<and> splits_sum (data xe) (data xt) (data x)"
proof (cases "s = [] \<or> data h_k = []")
  case True
  then have e: "s = [] \<or> data (mask_early h_k stop) = []" and t: "s = [] \<or> data (mask_tail h_k stop) = []"
    by (simp_all add: mask_data_Nil)
  have nd: "nd = 2" using assms(1) True unfolding convolve_def by (simp split: if_splits)
  have "x = \<lparr>shape = [0], data = []\<rparr>" using assms(1) True nd unfolding convolve_def by simp
  moreover have "xe = \<lparr>shape = [0], data = []\<rparr>" using assms(2) e nd unfolding convolve_def by simp
  moreover have "xt = \<lparr>shape = [0], data = []\<rparr>" using assms(3) t nd unfolding convolve_def by simp
  ultimately show ?thesis by (simp add: splits_sum_def)
next
  case False
  then have e: "\<not> (s = [] \<or> data (mask_early h_k stop) = [])"
    and t: "\<not> (s = [] \<or> data (mask_tail h_k stop) = [])"
    by (simp_all add: mask_data_Nil)
  note sm = splits_sum_mask [of h_k stop]
  from splits_sum_length [OF sm] have len: "length (data (mask_early h_k stop)) = length (data h_k)"
    "length (data (mask_tail h_k stop)) = length (data h_k)"
    by simp_all
  show ?thesis
  proof (cases "nd = 2")
    case True
    have "x = \<lparr>shape = [length s + length (data h_k) - 1], data = conv_full s (data h_k)\<rparr>"
      using assms(1) False True unfolding convolve_def by simp
    moreover have "xe = \<lparr>shape = [length s + length (data h_k) - 1],
        data = conv_full s (data (mask_early h_k stop))\<rparr>"
      using assms(2) e True len unfolding convolve_def by simp
    moreover have "xt = \<lparr>shape = [length s + length (data h_k) - 1],
        data = conv_full s (data (mask_tail h_k stop))\<rparr>"
      using assms(3) t True len unfolding convolve_def by simp
    ultimately show ?thesis using splits_sum_conv [OF sm, of s] by simp
  next
    case nd: False
    let ?t = "last (shape h_k)"
    let ?rows = "\<lambda>d. concat (map (\<lambda>i. conv_full s (take ?t (drop (i * ?t) d))) [0..<hd (shape h_k)])"
    have ss: "splits_sum (?rows (data (mask_early h_k stop))) (?rows (data (mask_tail h_k stop)))
       (?rows (data h_k))"
      by (intro splits_sum_concat splits_sum_conv splits_sum_window sm)
    have "x = \<lparr>shape = [hd (shape h_k), length s + ?t - 1], data = ?rows (data h_k)\<rparr>"
      using assms(1) False nd unfolding convolve_def channel_rows_def Let_def
      by (simp add: comp_def)
    moreover have "xe = \<lparr>shape = [hd (shape h_k), length s + ?t - 1],
        data = ?rows (data (mask_early h_k stop))\<rparr>"
      using assms(2) e nd unfolding convolve_def channel_rows_def Let_def
      by (simp add: comp_def mask_shape)
    moreover have "xt = \<lparr>shape = [hd (shape h_k), length s + ?t - 1],
        data = ?rows (data (mask_tail h_k stop))\<rparr>"
      using assms(3) t nd unfolding convolve_def channel_rows_def Let_def
      by (simp add: comp_def mask_shape)
    ultimately show ?thesis using ss by simp
  qed
qed

lemma collect_Inr:
  "collect rs = Inr vs \<Longrightarrow> length vs = length rs \<and> (\<forall>i<length rs. rs ! i = Inr (vs ! i))"
proof (induction rs arbitrary: vs)
  case Nil
  then show ?case by simp
next
  case (Cons r rs)
  then obtain v where r: "r = Inr v" by (cases r) auto
  with Cons.prems obtain ws where ws: "collect rs = Inr ws" "vs = v # ws"
    by (auto split: sum.splits)
  from Cons.IH [OF ws(1)] r ws(2) show ?case
    by (auto simp: nth_Cons split: nat.splits)
qed

lemma get_convolved_signals_Inr:
  assumes "get_convolved_signals nd rl s hs ns ro k = Inr x"
  shows "length x = length hs \<and> length s = length hs \<and>
         (\<forall>i<length hs. convolve nd (s ! i) (hs ! i) = Inr (x ! i))"
proof -
  from assms have l: "length s = length hs"
    and c: "collect (map2 (convolve nd) s hs) = Inr x"
    by (auto simp: get_convolved_signals_def split: if_splits sum.splits)
  from collect_Inr [OF c] l show ?thesis by auto
qed

lemma mask_speakers_Inr:
  assumes "mask_speakers f hs stops = Inr hm"
  shows "length hm = length hs \<and>
         (\<forall>i<length hs. \<exists>st. py_index stops (int i) = Inr st \<and> hm ! i = f (hs ! i) st)"
proof -
  from collect_Inr [OF assms [unfolded mask_speakers_def]]
  have l: "length hm = length hs"
    and n: "\<forall>i<length hs. (case py_index stops (int i) of Inl e \<Rightarrow> Inl e
              | Inr stop \<Rightarrow> Inr (f (hs ! i) stop)) = Inr (hm ! i)"
    by (simp_all cong: sum.case_cong)
  have "\<exists>st. py_index stops (int i) = Inr st \<and> hm ! i = f (hs ! i) st" if "i < length hs" for i
    using n [rule_format, OF that] by (cases "py_index stops (int i)") auto
  with l show ?thesis by blast
qed

lemma apply_scale_length: "length (apply_scale x sc) = min (length x) (length sc)"
  by (simp add: apply_scale_def)

lemma apply_scale_nth:
  "i < length x \<Longrightarrow> i < length sc \<Longrightarrow>
   apply_scale x sc ! i = \<lparr>shape = shape (x ! i), data = map (\<lambda>v. v * sc ! i) (data (x ! i))\<rparr>"
  by (simp add: apply_scale_def)

lemma reverberation_part_Inr:
  assumes "reverberation_part f nd rl s hs stops ns ro k sc = Inr p"
  shows "\<exists>hm xm. mask_speakers f hs stops = Inr hm \<and>
           get_convolved_signals nd rl s hm ns ro k = Inr xm \<and> fst p = apply_scale xm sc"
  using assms by (auto simp: reverberation_part_def split: sum.splits)

text \<open>
  Claim C9. Whenever \<open>reverberant_scenario_map_fn\<close> returns with both decompositions
  enabled, it has produced an early and a tail component for every speaker of the
  reverberated signals, of the shape of the scaled reverberated signal of that speaker,
  and the two sum to it exactly: the masked responses sum to the response, the
  convolution is linear, and the three signals are scaled by the same factor.
\<close>

theorem early_plus_tail_is_reverberated:
  assumes run: "reverberant_scenario_map_fn env ex opt = Inr out"
    and early: "add_speech_reverberation_early opt"
    and tail: "add_speech_reverberation_tail opt"
  shows "\<exists>e t. original_reverberation_early out = Some e \<and>
           original_reverberation_tail out = Some t \<and>
           length e = length (original_reverberated out) \<and>
           length t = length (original_reverberated out) \<and>
           (\<forall>k<length (original_reverberated out).
              shape (e ! k) = shape (original_reverberated out ! k) \<and>
              shape (t ! k) = shape (original_reverberated out ! k) \<and>
              length (data (e ! k)) = length (data (t ! k)) \<and>
              array_add (e ! k) (t ! k) = original_reverberated out ! k)"
proof -
  from run obtain starts where st: "rir_onsets (audio_rir ex) = Inr starts"
    by (auto simp: reverberant_scenario_map_fn_def split: sum.splits)
  from run st obtain h
    where h: "slice_rir (entropy_rng env) (audio_rir ex) (channel_slice opt) = Inr h"
    by (auto simp: reverberant_scenario_map_fn_def split: sum.splits)
  define stops where "stops = map (\<lambda>r. int r + early_rir_samples opt) starts"
  define ro where "ro = (if compensate_time_of_flight opt
             then map2 (\<lambda>off r. off - int r) (offset_source ex) starts
             else offset_source ex)"
  define s where "s = (if normalize_sources opt
               then map (\<lambda>s_k. map (\<lambda>v. v - mean s_k) s_k) (audio_original_source ex)
               else audio_original_source ex)"
  define hs where "hs = unstack h"
  define k where "k = length (speaker_id ex)"
  define rl where "rl = last (shape h)"
  define ns where "ns = num_samples_source ex"
  from run st h obtain x where x: "get_convolved_signals (ndim h) rl s hs ns ro k = Inr x"
    unfolding reverberant_scenario_map_fn_def Let_def stops_def ro_def s_def hs_def k_def rl_def ns_def
    by (simp split: sum.splits)
  define sc where "sc = get_scale env (log_weights ex) x"
  from run st h x early obtain pe
    where pe: "reverberation_part mask_early (ndim h) rl s hs stops ns ro k sc = Inr pe"
    unfolding reverberant_scenario_map_fn_def Let_def stops_def ro_def s_def hs_def k_def rl_def
      ns_def sc_def optional_part_def
    by (simp split: sum.splits)
  from run st h x early tail pe obtain pt
    where pt: "reverberation_part mask_tail (ndim h) rl s hs stops ns ro k sc = Inr pt"
    unfolding reverberant_scenario_map_fn_def Let_def stops_def ro_def s_def hs_def k_def rl_def
      ns_def sc_def optional_part_def
    by (simp split: sum.splits)
  from run st h x early tail pe pt
  have out: "original_reverberated out = apply_scale x sc"
    "original_reverberation_early out = Some (fst pe)"
    "original_reverberation_tail out = Some (fst pt)"
    unfolding reverberant_scenario_map_fn_def Let_def stops_def ro_def s_def hs_def k_def rl_def
      ns_def sc_def optional_part_def
    by (auto split: sum.splits)
  from reverberation_part_Inr [OF pe] obtain he xe
    where he: "mask_speakers mask_early hs stops = Inr he"
      and xe: "get_convolved_signals (ndim h) rl s he ns ro k = Inr xe"
      and pe': "fst pe = apply_scale xe sc" by blast
  from reverberation_part_Inr [OF pt] obtain ht xt
    where ht: "mask_speakers mask_tail hs stops = Inr ht"
      and xt: "get_convolved_signals (ndim h) rl s ht ns ro k = Inr xt"
      and pt': "fst pt = apply_scale xt sc" by blast
  note X = get_convolved_signals_Inr [OF x]
  note XE = get_convolved_signals_Inr [OF xe]
  note XT = get_convolved_signals_Inr [OF xt]
  note HE = mask_speakers_Inr [OF he]
  note HT = mask_speakers_Inr [OF ht]
  have lxe: "length xe = length x" and lxt: "length xt = length x"
    using X XE XT HE HT by simp_all
  have le: "length (fst pe) = length (apply_scale x sc)"
    and lt: "length (fst pt) = length (apply_scale x sc)"
    by (simp_all add: pe' pt' apply_scale_length lxe lxt)
  have each: "shape (fst pe ! i) = shape (apply_scale x sc ! i) \<and>
      shape (fst pt ! i) = shape (apply_scale x sc ! i) \<and>
      length (data (fst pe ! i)) = length (data (fst pt ! i)) \<and>
      array_add (fst pe ! i) (fst pt ! i) = apply_scale x sc ! i"
    if i: "i < length (apply_scale x sc)" for i
  proof -
    from i have ix: "i < length x" and isc: "i < length sc"
      by (simp_all add: apply_scale_length)
    from ix X have ih: "i < length hs" by simp
    from HE ih obtain st1 where st1: "py_index stops (int i) = Inr st1"
      "he ! i = mask_early (hs ! i) st1" by blast
    from HT ih obtain st2 where st2: "py_index stops (int i) = Inr st2"
      "ht ! i = mask_tail (hs ! i) st2" by blast
    from st1(1) st2(1) have same: "st2 = st1" by simp
    have c: "convolve (ndim h) (s ! i) (hs ! i) = Inr (x ! i)" using X ih by blast
    have ce: "convolve (ndim h) (s ! i) (mask_early (hs ! i) st1) = Inr (xe ! i)"
      using XE HE ih st1(2) by (metis (no_types, lifting))
    have ct: "convolve (ndim h) (s ! i) (mask_tail (hs ! i) st1) = Inr (xt ! i)"
      using XT HT ih st2(2) same by (metis (no_types, lifting))
    from convolve_decomposition [OF c ce ct]
    have sh: "shape (xe ! i) = shape (x ! i)" "shape (xt ! i) = shape (x ! i)"
      and ss: "splits_sum (data (xe ! i)) (data (xt ! i)) (data (x ! i))" by simp_all
    from splits_sum_scale [OF ss, of "sc ! i"]
    have "splits_sum (map (\<lambda>v. v * sc ! i) (data (xe ! i))) (map (\<lambda>v. v * sc ! i) (data (xt ! i)))
        (map (\<lambda>v. v * sc ! i) (data (x ! i)))" .
    then show ?thesis
      using sh ix isc lxe lxt
      by (simp add: pe' pt' apply_scale_nth array_add_def splits_sum_def)
  qed
  from out le lt each show ?thesis by simp
qed

lemma two_speaker_run:
  "map_sum id original_reverberated
     (reverberant_scenario_map_fn fixed_scale two_speaker_example both_parts) =
     Inr [\<lparr>shape = [4], data = [0, 2, 5, 2]\<rparr>, \<lparr>shape = [3], data = [9, 0, 9 / 4]\<rparr>]"
  "map_sum id original_reverberation_early
     (reverberant_scenario_map_fn fixed_scale two_speaker_example both_parts) =
     Inr (Some [\<lparr>shape = [4], data = [0, 2, 4, 0]\<rparr>, \<lparr>shape = [3], data = [9, 0, 0]\<rparr>])"
  "map_sum id original_reverberation_tail
     (reverberant_scenario_map_fn fixed_scale two_speaker_example both_parts) =
     Inr (Some [\<lparr>shape = [4], data = [0, 0, 1, 2]\<rparr>, \<lparr>shape = [3], data = [0, 0, 9 / 4]\<rparr>])"
  by code_simp+

theorem early_plus_tail_is_reverberated_witness:
  "add_speech_reverberation_early both_parts \<and> add_speech_reverberation_tail both_parts \<and>
   map_sum id original_reverberated
     (reverberant_scenario_map_fn fixed_scale two_speaker_example both_parts) =
     Inr [\<lparr>shape = [4], data = [0, 2, 5, 2]\<rparr>, \<lparr>shape = [3], data = [9, 0, 9 / 4]\<rparr>] \<and>
   map_sum id original_reverberation_early
     (reverberant_scenario_map_fn fixed_scale two_speaker_example both_parts) =
     Inr (Some [\<lparr>shape = [4], data = [0, 2, 4, 0]\<rparr>, \<lparr>shape = [3], data = [9, 0, 0]\<rparr>]) \<and>
   map_sum id original_reverberation_tail
     (reverberant_scenario_map_fn fixed_scale two_speaker_example both_parts) =
     Inr (Some [\<lparr>shape = [4], data = [0, 0, 1, 2]\<rparr>, \<lparr>shape = [3], data = [0, 0, 9 / 4]\<rparr>]) \<and>
   array_add \<lparr>shape = [4], data = [0, 2, 4, 0]\<rparr> \<lparr>shape = [4], data = [0, 0, 1, 2]\<rparr> =
     \<lparr>shape = [4], data = [0, 2, 5, 2]\<rparr> \<and>
   array_add \<lparr>shape = [3], data = [9, 0, 0]\<rparr> \<lparr>shape = [3], data = [0, 0, 9 / 4]\<rparr> =
     \<lparr>shape = [3], data = [9, 0, 9 / 4]\<rparr>"
proof -
  let ?run = "reverberant_scenario_map_fn fixed_scale two_speaker_example both_parts"
  have h2: "add_speech_reverberation_early both_parts"
    and h3: "add_speech_reverberation_tail both_parts"
    by (simp_all add: both_parts_def)
  from two_speaker_run(1) obtain out where run: "?run = Inr out"
    by (cases ?run) simp_all
  from two_speaker_run [unfolded run]
  have f: "original_reverberated out =
      [\<lparr>shape = [4], data = [0, 2, 5, 2]\<rparr>, \<lparr>shape = [3], data = [9, 0, 9 / 4]\<rparr>]"
    "original_reverberation_early out =
      Some [\<lparr>shape = [4], data = [0, 2, 4, 0]\<rparr>, \<lparr>shape = [3], data = [9, 0, 0]\<rparr>]"
    "original_reverberation_tail out =
      Some [\<lparr>shape = [4], data = [0, 0, 1, 2]\<rparr>, \<lparr>shape = [3], data = [0, 0, 9 / 4]\<rparr>]"
    by simp_all
  from early_plus_tail_is_reverberated [OF run h2 h3] obtain e t
    where e: "original_reverberation_early out = Some e"
      and t: "original_reverberation_tail out = Some t"
      and sum: "\<forall>k<length (original_reverberated out).
          array_add (e ! k) (t ! k) = original_reverberated out ! k"
    by blast
  from e t f have et: "e = [\<lparr>shape = [4], data = [0, 2, 4, 0]\<rparr>, \<lparr>shape = [3], data = [9, 0, 0]\<rparr>]"
    "t = [\<lparr>shape = [4], data = [0, 0, 1, 2]\<rparr>, \<lparr>shape = [3], data = [0, 0, 9 / 4]\<rparr>]"
    by simp_all
  from sum [rule_format, of 0] sum [rule_format, of 1]
  have a: "array_add \<lparr>shape = [4], data = [0, 2, 4, 0]\<rparr> \<lparr>shape = [4], data = [0, 0, 1, 2]\<rparr> =
      \<lparr>shape = [4], data = [0, 2, 5, 2]\<rparr>"
    and b: "array_add \<lparr>shape = [3], data = [9, 0, 0]\<rparr> \<lparr>shape = [3], data = [0, 0, 9 / 4]\<rparr> =
      \<lparr>shape = [3], data = [9, 0, 9 / 4]\<rparr>"
    unfolding et f by simp_all
  show ?thesis
    by (intro conjI) (fact h2 h3 two_speaker_run a b)+
qed

end
